theory Spec2Isabelle
  imports Complex_Main "HOL-Library.Word"
begin

section \<open>Parser: operators and binding priorities\<close>

text \<open>
  \<^verbatim>\<open>type operatorSpecifier uint8\<close> with the seven constants declared by \<^verbatim>\<open>iota\<close>;
  \<^verbatim>\<open>Integer\<close> is a 64-bit signed integer, modelled as \<open>int\<close> with the wrap-around of
  machine arithmetic written out by \<open>wrap64\<close>.
\<close>

type_synonym operatorSpecifier = "8 word"

definition operatorSpecifierFX :: operatorSpecifier where "operatorSpecifierFX = 0"
definition operatorSpecifierFY :: operatorSpecifier where "operatorSpecifierFY = 1"
definition operatorSpecifierXF :: operatorSpecifier where "operatorSpecifierXF = 2"
definition operatorSpecifierYF :: operatorSpecifier where "operatorSpecifierYF = 3"
definition operatorSpecifierXFX :: operatorSpecifier where "operatorSpecifierXFX = 4"
definition operatorSpecifierXFY :: operatorSpecifier where "operatorSpecifierXFY = 5"
definition operatorSpecifierYFX :: operatorSpecifier where "operatorSpecifierYFX = 6"

definition wrap64 :: "int \<Rightarrow> int" where
  "wrap64 x = (x + 2 ^ 63) mod 2 ^ 64 - 2 ^ 63"

record operator =
  priority :: int
  specifier :: operatorSpecifier
  name' :: string

definition bindingPriorities :: "operator \<Rightarrow> int \<times> int" where
  "bindingPriorities oper =
     (let max = (1202 :: int) in
      if specifier oper = operatorSpecifierFX then (max, wrap64 (priority oper - 1))
      else if specifier oper = operatorSpecifierFY then (max, priority oper)
      else if specifier oper = operatorSpecifierXF then (wrap64 (priority oper - 1), max)
      else if specifier oper = operatorSpecifierYF then (priority oper, max)
      else if specifier oper = operatorSpecifierXFX
        then (wrap64 (priority oper - 1), wrap64 (priority oper - 1))
      else if specifier oper = operatorSpecifierXFY then (wrap64 (priority oper - 1), priority oper)
      else if specifier oper = operatorSpecifierYFX then (priority oper, wrap64 (priority oper - 1))
      else (max, max))"

section \<open>Terms, environments and unification\<close>

text \<open>
  A term is an atom, an integer, a float, a variable or a compound (\<^verbatim>\<open>Compound\<close> with
  its \<^verbatim>\<open>Functor\<close> and \<^verbatim>\<open>Args\<close>). A variable is known by its identity only. The
  payload of a float is never inspected by the functions modelled here.
\<close>

type_synonym var = nat

datatype Term =
    Atom string
  | Integer int
  | Float real
  | Variable var
  | Compound string "Term list"

text \<open>
  Modelled from the spec: the environment \<^verbatim>\<open>Env\<close> is missing from the sources. It is a
  persistent mapping from variable identity to term, extended by binding a variable and sharing
  structure with its parent: a list of bindings, the newest first. For the functions that keep
  the binding in the variable itself (\<^verbatim>\<open>Variable.Ref\<close>), the same list is the store of
  all references, an unbound variable being one whose \<^verbatim>\<open>Ref\<close> is nil.
\<close>

type_synonym Env = "(var \<times> Term) list"

definition Lookup :: "Env \<Rightarrow> var \<Rightarrow> Term option" where
  "Lookup env v = map_of env v"

definition Bind :: "Env \<Rightarrow> var \<Rightarrow> Term \<Rightarrow> Env" where
  "Bind env v t = (v, t) # env"

text \<open>
  Modelled from the spec: \<^verbatim>\<open>Resolve(t, env)\<close> is missing from the sources. It walks variable
  chains in the environment to the deepest non-variable term or to the terminal unbound variable.
  The walk is a loop; on a chain of variables that runs in a circle it does not return, which is
  the value \<open>None\<close>.
\<close>

partial_function (option) Resolve :: "Env \<Rightarrow> Term \<Rightarrow> Term option" where
  "Resolve env t =
     (case t of
        Variable v \<Rightarrow> (case Lookup env v of None \<Rightarrow> Some t | Some t' \<Rightarrow> Resolve env t')
      | _ \<Rightarrow> Some t)"

declare Resolve.simps [code]

text \<open>
  \<^verbatim>\<open>Cons\<close>, \<^verbatim>\<open>ListRest\<close> and \<^verbatim>\<open>List\<close> build lists from \<^verbatim>\<open>./2\<close> and \<^verbatim>\<open>[]\<close>.
\<close>

definition Cons :: "Term \<Rightarrow> Term \<Rightarrow> Term" where
  "Cons car cdr = Compound ''.'' [car, cdr]"

definition ListRest :: "Term \<Rightarrow> Term list \<Rightarrow> Term" where
  "ListRest rest ts = foldr Cons ts rest"

definition List :: "Term list \<Rightarrow> Term" where
  "List ts = ListRest (Atom ''[]'') ts"

text \<open>
  Unification \<^verbatim>\<open>t1.Unify(t2, occursCheck, env)\<close> dispatches on the kind of the receiver.
  \<^verbatim>\<open>Compound.Unify\<close> is in the sources:
  \<^verbatim>\<open>
  switch t := env.Resolve(t).(type) {
  case *Compound:
      if c.Functor != t.Functor { return env, false }
      if len(c.Args) != len(t.Args) { return env, false }
      for i := range c.Args {
          env, ok = c.Args[i].Unify(t.Args[i], occursCheck, env)
          if !ok { return env, false }
      }
      return env, true
  case Variable:
      return t.Unify(c, occursCheck, env)
  default:
      return env, false
  }
  \<close>
  The recursion need not end on an environment with cyclic bindings, so every function takes
  a bound \<open>n\<close> on the depth of calls and returns \<open>None\<close> when the bound is reached.

  Modelled from the spec: the \<^verbatim>\<open>Unify\<close> methods of atoms, integers, floats and variables
  and the occurs check \<^verbatim>\<open>Contains\<close> are missing from the sources. Each side is resolved through
  the environment; an unbound variable is bound to the other side (nothing is bound when both
  sides are the same variable); with the occurs check on, a variable is not bound to a term in
  which it occurs, and unification fails; atoms unify with equal atoms only, numbers with equal
  numbers of the same kind only.
\<close>

fun Contains :: "nat \<Rightarrow> Term \<Rightarrow> var \<Rightarrow> Env \<Rightarrow> bool option"
  and ContainsArgs :: "nat \<Rightarrow> Term list \<Rightarrow> var \<Rightarrow> Env \<Rightarrow> bool option" where
  "Contains 0 t v env = None"
| "Contains (Suc n) t v env =
     (case Resolve env t of
        None \<Rightarrow> None
      | Some (Variable w) \<Rightarrow> Some (w = v)
      | Some (Compound f args) \<Rightarrow> ContainsArgs n args v env
      | Some _ \<Rightarrow> Some False)"
| "ContainsArgs n [] v env = Some False"
| "ContainsArgs n (a # as) v env =
     (case Contains n a v env of
        None \<Rightarrow> None
      | Some True \<Rightarrow> Some True
      | Some False \<Rightarrow> ContainsArgs n as v env)"

fun Unify :: "nat \<Rightarrow> Term \<Rightarrow> Term \<Rightarrow> bool \<Rightarrow> Env \<Rightarrow> (Env \<times> bool) option"
  and UnifyArgs :: "nat \<Rightarrow> Term list \<Rightarrow> Term list \<Rightarrow> bool \<Rightarrow> Env \<Rightarrow> (Env \<times> bool) option" where
  "Unify 0 t1 t2 occursCheck env = None"
| "Unify (Suc n) (Atom a) t2 occursCheck env =
     (case Resolve env t2 of
        None \<Rightarrow> None
      | Some (Atom b) \<Rightarrow> Some (env, a = b)
      | Some (Variable w) \<Rightarrow> Unify n (Variable w) (Atom a) occursCheck env
      | Some _ \<Rightarrow> Some (env, False))"
| "Unify (Suc n) (Integer i) t2 occursCheck env =
     (case Resolve env t2 of
        None \<Rightarrow> None
      | Some (Integer j) \<Rightarrow> Some (env, i = j)
      | Some (Variable w) \<Rightarrow> Unify n (Variable w) (Integer i) occursCheck env
      | Some _ \<Rightarrow> Some (env, False))"
| "Unify (Suc n) (Float x) t2 occursCheck env =
     (case Resolve env t2 of
        None \<Rightarrow> None
      | Some (Float y) \<Rightarrow> Some (env, x = y)
      | Some (Variable w) \<Rightarrow> Unify n (Variable w) (Float x) occursCheck env
      | Some _ \<Rightarrow> Some (env, False))"
| "Unify (Suc n) (Variable v) t2 occursCheck env =
     (case Resolve env (Variable v) of
        None \<Rightarrow> None
      | Some (Variable v') \<Rightarrow>
          (case Resolve env t2 of
             None \<Rightarrow> None
           | Some t \<Rightarrow>
               if t = Variable v' then Some (env, True)
               else if occursCheck then
                 (case Contains n t v' env of
                    None \<Rightarrow> None
                  | Some True \<Rightarrow> Some (env, False)
                  | Some False \<Rightarrow> Some (Bind env v' t, True))
               else Some (Bind env v' t, True))
      | Some r \<Rightarrow>
          (case Resolve env t2 of
             None \<Rightarrow> None
           | Some t \<Rightarrow> Unify n r t occursCheck env))"
| "Unify (Suc n) (Compound f args) t occursCheck env =
     (case Resolve env t of
        None \<Rightarrow> None
      | Some (Compound g targs) \<Rightarrow>
          if f \<noteq> g then Some (env, False)
          else if length args \<noteq> length targs then Some (env, False)
          else UnifyArgs n args targs occursCheck env
      | Some (Variable w) \<Rightarrow> Unify n (Variable w) (Compound f args) occursCheck env
      | Some _ \<Rightarrow> Some (env, False))"
| "UnifyArgs n [] ts occursCheck env = Some (env, True)"
| "UnifyArgs n (a # as) [] occursCheck env = Some (env, True)"
| "UnifyArgs n (a # as) (t # ts) occursCheck env =
     (case Unify n a t occursCheck env of
        None \<Rightarrow> None
      | Some (env', ok) \<Rightarrow>
          if \<not> ok then Some (env', False) else UnifyArgs n as ts occursCheck env')"

text \<open>
  A call returns a result when some bound on the depth of calls is enough for it.
\<close>

definition Unify_returns :: "Term \<Rightarrow> Term \<Rightarrow> bool \<Rightarrow> Env \<Rightarrow> Env \<times> bool \<Rightarrow> bool" where
  "Unify_returns t1 t2 occursCheck env res \<longleftrightarrow> (\<exists>n. Unify n t1 t2 occursCheck env = Some res)"

definition Contains_returns :: "Term \<Rightarrow> var \<Rightarrow> Env \<Rightarrow> bool \<Rightarrow> bool" where
  "Contains_returns t v env b \<longleftrightarrow> (\<exists>n. Contains n t v env = Some b)"

text \<open>
  The words of the specification for two argument sequences: the arguments unify pairwise, from
  left to right, each unification starting from the environment the one before it produced.
\<close>

inductive unify_pairwise :: "Term list \<Rightarrow> Term list \<Rightarrow> bool \<Rightarrow> Env \<Rightarrow> Env \<Rightarrow> bool" where
  unify_pairwise_Nil: "unify_pairwise [] [] occursCheck env env"
| unify_pairwise_Cons:
    "Unify_returns a b occursCheck env (env1, True) \<Longrightarrow>
     unify_pairwise as bs occursCheck env1 env' \<Longrightarrow>
     unify_pairwise (a # as) (b # bs) occursCheck env env'"

section \<open>Built-in predicates: outcomes and errors\<close>

text \<open>
  A built-in predicate \<^verbatim>\<open>func(..., k func() (bool, error)) (bool, error)\<close> either returns
  a boolean and an error of its own, or returns whatever its continuation \<^verbatim>\<open>k()\<close>
  returns, or panics. The state it has changed by then is returned with the outcome.
  \<open>NilArgument\<close> stands for a call that goes on with a compound holding a nil \<^verbatim>\<open>Term\<close>
  among its arguments, which is no term of this model.
\<close>

datatype builtin_error =
    invalid_precedence Term
  | invalid_type Term
  | invalid_name Term
  | invalid_argument
  | invalid_arguments_atom_is_not_instantiated
  | invalid_arguments_name_is Term
  | invalid_arguments
  | not_callable
  | builtin

datatype outcome =
    Continue
  | Return bool "builtin_error option"
  | Panic
  | NilArgument

section \<open>The operator table and \<^verbatim>\<open>op/3\<close>\<close>

text \<open>
  \<^verbatim>\<open>operator{Precedence Integer; Type Atom; Name Atom}\<close> as \<^verbatim>\<open>Engine.Op\<close> stores it;
  the zero value \<^verbatim>\<open>operator{}\<close> has precedence 0 and empty atoms.
\<close>

record engine_operator =
  Precedence :: int
  Type :: string
  Name :: string

definition zero_operator :: engine_operator where
  "zero_operator = \<lparr>Precedence = 0, Type = [], Name = []\<rparr>"

text \<open>
  The loop \<^verbatim>\<open>for i, o := range e.operators\<close> runs over the indices of the slice as it was
  when the loop began and reads \<^verbatim>\<open>o\<close> from the backing array at each round, so it sees
  the elements that a removal has shifted. Its state is the backing array \<open>arr\<close> and the
  current length \<open>len\<close> of \<^verbatim>\<open>e.operators\<close>. Removing at \<open>i\<close> evaluates
  \<^verbatim>\<open>e.operators[i+1:]\<close>, which panics when \<open>i + 1\<close> exceeds the current length.
\<close>

datatype loop_result =
    LoopDone "engine_operator list" nat
  | LoopReturn "engine_operator list" nat
  | LoopPanic "engine_operator list" nat

definition remove_at :: "nat \<Rightarrow> engine_operator list \<Rightarrow> nat \<Rightarrow> engine_operator list" where
  "remove_at i arr len =
     take i arr @ drop (i + 1) (take len arr) @ [zero_operator] @ drop len arr"

fun Op_loop :: "int \<Rightarrow> string \<Rightarrow> string \<Rightarrow> nat list \<Rightarrow> engine_operator list \<Rightarrow> nat \<Rightarrow> loop_result" where
  "Op_loop p t n [] arr len = LoopDone arr len"
| "Op_loop p t n (i # is) arr len =
     (let oper = arr ! i in
      if Type oper \<noteq> t \<or> Name oper \<noteq> n then Op_loop p t n is arr len
      else if len < i + 1 then LoopPanic arr len
      else
        let arr' = remove_at i arr len; len' = len - 1 in
        if p = 0 then LoopReturn arr' len' else Op_loop p t n is arr' len')"

text \<open>
  \<^verbatim>\<open>sort.Search(n, f)\<close> of the Go standard library: binary search for the smallest index
  in \<open>[0, n)\<close> at which \<open>f\<close> is true.
\<close>

function Search_loop :: "(nat \<Rightarrow> bool) \<Rightarrow> nat \<Rightarrow> nat \<Rightarrow> nat" where
  "Search_loop f i j =
     (if i < j then
        (let h = (i + j) div 2 in
         if \<not> f h then Search_loop f (h + 1) j else Search_loop f i h)
      else i)"
  by pat_completeness auto
termination
  by (relation "measure (\<lambda>(f, i, j). j - i)") auto

declare Search_loop.simps [simp del]

definition Search :: "nat \<Rightarrow> (nat \<Rightarrow> bool) \<Rightarrow> nat" where
  "Search n f = Search_loop f 0 n"

definition Op_insert :: "int \<Rightarrow> string \<Rightarrow> string \<Rightarrow> engine_operator list \<Rightarrow> engine_operator list" where
  "Op_insert p t n ops =
     (let i = Search (length ops) (\<lambda>i. Precedence (ops ! i) \<ge> p) in
      take i ops @ [\<lparr>Precedence = p, Type = t, Name = n\<rparr>] @ drop i ops)"

definition Op :: "Env \<Rightarrow> Term \<Rightarrow> Term \<Rightarrow> Term \<Rightarrow> engine_operator list
    \<Rightarrow> (outcome \<times> engine_operator list) option" where
  "Op env precedence typ name ops =
     (case Resolve env precedence of
        None \<Rightarrow> None
      | Some (Integer p) \<Rightarrow>
          (case Resolve env typ of
             None \<Rightarrow> None
           | Some (Atom t) \<Rightarrow>
               (case Resolve env name of
                  None \<Rightarrow> None
                | Some (Atom n) \<Rightarrow>
                    (case Op_loop p t n [0..<length ops] ops (length ops) of
                       LoopPanic arr len \<Rightarrow> Some (Panic, take len arr)
                     | LoopReturn arr len \<Rightarrow> Some (Continue, take len arr)
                     | LoopDone arr len \<Rightarrow> Some (Continue, Op_insert p t n (take len arr)))
                | Some _ \<Rightarrow> Some (Return False (Some (invalid_name name)), ops))
           | Some _ \<Rightarrow> Some (Return False (Some (invalid_type typ)), ops))
      | Some _ \<Rightarrow> Some (Return False (Some (invalid_precedence precedence)), ops))"

text \<open>
  The words of the specification: the specifier class of an operator is prefix for
  \<open>fx\<close> and \<open>fy\<close>, postfix for \<open>xf\<close> and \<open>yf\<close>, infix for \<open>xfx\<close>, \<open>xfy\<close> and
  \<open>yfx\<close>; a pair of specifier class and name is unique in the table.
\<close>

datatype specifier_class = Prefix | Postfix | Infix | NoClass

definition class_of :: "string \<Rightarrow> specifier_class" where
  "class_of t =
     (if t = ''fx'' \<or> t = ''fy'' then Prefix
      else if t = ''xf'' \<or> t = ''yf'' then Postfix
      else if t = ''xfx'' \<or> t = ''xfy'' \<or> t = ''yfx'' then Infix
      else NoClass)"

definition class_unique :: "engine_operator list \<Rightarrow> bool" where
  "class_unique ops = distinct (map (\<lambda>oper. (class_of (Type oper), Name oper)) ops)"

text \<open>
  What the loop of \<^verbatim>\<open>Engine.Op\<close> compares: the type atom itself and the name.
\<close>

definition op_key :: "engine_operator \<Rightarrow> string \<times> string" where
  "op_key oper = (Type oper, Name oper)"

definition key_unique :: "engine_operator list \<Rightarrow> bool" where
  "key_unique ops = distinct (map op_key ops)"

definition ordered :: "engine_operator list \<Rightarrow> bool" where
  "ordered ops = sorted (map Precedence ops)"

section \<open>Term construction: \<^verbatim>\<open>functor/3\<close> and \<^verbatim>\<open>=../2\<close>\<close>

text \<open>
  The built-ins of \<^verbatim>\<open>builtin.go\<close> work on variables that hold their binding themselves
  (\<^verbatim>\<open>*Variable\<close> with its \<^verbatim>\<open>Ref\<close>, nil when unbound). The state is the store of all
  references together with the next unused variable identity; \<^verbatim>\<open>var v Variable\<close>
  takes a fresh one. \<^verbatim>\<open>t1.Unify(t2)\<close> is unification without the occurs check.
\<close>

record heap =
  refs :: Env
  next_var :: var

definition fresh_vars :: "heap \<Rightarrow> nat \<Rightarrow> Term list" where
  "fresh_vars h k = map Variable [next_var h..<next_var h + k]"

text \<open>
  A variable made by \<^verbatim>\<open>var v Variable\<close> is a new object, different from every variable
  the program holds. The counter \<open>next_var\<close> gives that only on a store where every
  variable in use, bound or mentioned in a binding, has been taken from the counter before;
  the same is asked of the terms a built-in is called with.
\<close>

fun vars_of :: "Term \<Rightarrow> var set" where
  "vars_of (Variable v) = {v}"
| "vars_of (Compound f args) = (\<Union>a \<in> set args. vars_of a)"
| "vars_of (Atom a) = {}"
| "vars_of (Integer i) = {}"
| "vars_of (Float x) = {}"

definition in_use :: "heap \<Rightarrow> var set" where
  "in_use h = fst ` set (refs h) \<union> (\<Union>b \<in> set (refs h). vars_of (snd b))"

definition well_formed :: "heap \<Rightarrow> bool" where
  "well_formed h \<longleftrightarrow> (\<forall>v \<in> in_use h. v < next_var h)"

text \<open>
  \<^verbatim>\<open>make([]Term, n)\<close> panics when \<open>n\<close> is negative and when the slice would be larger than
  the runtime can address (\<^verbatim>\<open>makeslice: len out of range\<close>): with at most \<open>2\<^sup>4\<^sup>8\<close> bytes and
  16 bytes for a \<^verbatim>\<open>Term\<close>, never more than \<open>2\<^sup>4\<^sup>4\<close> elements. Below that it still gives up
  when the memory at hand is not enough for the slice and the variables that fill it;
  \<open>max_len\<close> is the largest length the machine grants. The outcome \<open>Panic\<close> stands for
  both.
\<close>

definition makeslice_limit :: "int \<Rightarrow> int" where
  "makeslice_limit max_len = min max_len (2 ^ 44)"

text \<open>
  \<^verbatim>\<open>Functor(term, name, arity, k)\<close>. Its three loops follow \<^verbatim>\<open>Ref\<close> to the end of a
  chain of variables, as \<open>Resolve\<close> does.
\<close>

definition Functor :: "nat \<Rightarrow> int \<Rightarrow> Term \<Rightarrow> Term \<Rightarrow> Term \<Rightarrow> heap
    \<Rightarrow> (outcome \<times> heap) option" where
  "Functor n max_len term name arity h =
     (case Resolve (refs h) term of
        None \<Rightarrow> None
      | Some (Atom a) \<Rightarrow>
          (case Unify n (Atom a) name False (refs h) of
             None \<Rightarrow> None
           | Some (env1, ok1) \<Rightarrow>
               if \<not> ok1 then Some (Return False None, h\<lparr>refs := env1\<rparr>)
               else
                 (case Unify n (Integer 0) arity False env1 of
                    None \<Rightarrow> None
                  | Some (env2, ok2) \<Rightarrow>
                      if \<not> ok2 then Some (Return False None, h\<lparr>refs := env2\<rparr>)
                      else Some (Continue, h\<lparr>refs := env2\<rparr>)))
      | Some (Compound f args) \<Rightarrow>
          (case Unify n (Atom f) name False (refs h) of
             None \<Rightarrow> None
           | Some (env1, ok1) \<Rightarrow>
               if \<not> ok1 then Some (Return False None, h\<lparr>refs := env1\<rparr>)
               else
                 (case Unify n (Integer (int (length args))) arity False env1 of
                    None \<Rightarrow> None
                  | Some (env2, ok2) \<Rightarrow>
                      if \<not> ok2 then Some (Return False None, h\<lparr>refs := env2\<rparr>)
                      else Some (Continue, h\<lparr>refs := env2\<rparr>)))
      | Some (Variable v) \<Rightarrow>
          (case Resolve (refs h) name of
             None \<Rightarrow> None
           | Some (Atom a) \<Rightarrow>
               (case Resolve (refs h) arity of
                  None \<Rightarrow> None
                | Some (Integer i) \<Rightarrow>
                    if i = 0 then
                      (case Unify n (Variable v) (Integer i) False (refs h) of
                         None \<Rightarrow> None
                       | Some (env1, ok) \<Rightarrow>
                           if \<not> ok then Some (Return False None, h\<lparr>refs := env1\<rparr>)
                           else Some (Continue, h\<lparr>refs := env1\<rparr>))
                    else if i < 0 \<or> makeslice_limit max_len < i then Some (Panic, h)
                    else
                      (let vars = fresh_vars h (nat i);
                           h1 = h\<lparr>next_var := next_var h + nat i\<rparr> in
                       case Unify n (Variable v) (Compound a vars) False (refs h1) of
                         None \<Rightarrow> None
                       | Some (env1, ok) \<Rightarrow>
                           if \<not> ok then Some (Return False None, h1\<lparr>refs := env1\<rparr>)
                           else Some (Continue, h1\<lparr>refs := env1\<rparr>))
                | Some _ \<Rightarrow> Some (Return False (Some invalid_arguments), h))
           | Some (Variable w) \<Rightarrow>
               Some (Return False (Some invalid_arguments_atom_is_not_instantiated), h)
           | Some r \<Rightarrow> Some (Return False (Some (invalid_arguments_name_is r)), h))
      | Some _ \<Rightarrow> Some (Return False None, h))"








section \<open>Iterating over lists and sequences\<close>

text \<open>
  Errors are Prolog terms built by helpers that are missing from the sources; each helper is a
  constructor here, applied to the culprit it is given.
\<close>

datatype exception =
    InstantiationError Term
  | typeErrorList Term
  | typeErrorCallable Term
  | existenceErrorProcedure Term
  | systemError exception
  | unknown_unknown int
  | errors_New string

text \<open>
  \<^verbatim>\<open>EachList\<close>, \<^verbatim>\<open>EachSeq\<close> and \<^verbatim>\<open>Each\<close> call \<^verbatim>\<open>f\<close> on every element; \<^verbatim>\<open>f\<close>
  updates what it has collected so far or returns an error, which stops the loop. The loops
  follow the tail through the environment and need not end on a cyclic list, so they take a
  bound on the number of rounds.
\<close>

fun EachList_loop :: "nat \<Rightarrow> Term \<Rightarrow> Term \<Rightarrow> (Term \<Rightarrow> 'a \<Rightarrow> exception + 'a) \<Rightarrow> Env \<Rightarrow> 'a
    \<Rightarrow> (exception + 'a) option" where
  "EachList_loop 0 whole list f env acc = None"
| "EachList_loop (Suc n) whole list f env acc =
     (case Resolve env list of
        None \<Rightarrow> None
      | Some (Variable v) \<Rightarrow> Some (Inl (InstantiationError whole))
      | Some (Atom l) \<Rightarrow>
          if l \<noteq> ''[]'' then Some (Inl (typeErrorList (Atom l))) else Some (Inr acc)
      | Some (Compound g args) \<Rightarrow>
          if g \<noteq> ''.'' \<or> length args \<noteq> 2 then Some (Inl (typeErrorList (Compound g args)))
          else
            (case f (args ! 0) acc of
               Inl err \<Rightarrow> Some (Inl err)
             | Inr acc' \<Rightarrow> EachList_loop n whole (args ! 1) f env acc')
      | Some l \<Rightarrow> Some (Inl (typeErrorList l)))"

definition EachList :: "nat \<Rightarrow> Term \<Rightarrow> (Term \<Rightarrow> 'a \<Rightarrow> exception + 'a) \<Rightarrow> Env \<Rightarrow> 'a
    \<Rightarrow> (exception + 'a) option" where
  "EachList n list f env acc = EachList_loop n list list f env acc"

fun EachSeq :: "nat \<Rightarrow> Term \<Rightarrow> string \<Rightarrow> (Term \<Rightarrow> 'a \<Rightarrow> exception + 'a) \<Rightarrow> Env \<Rightarrow> 'a
    \<Rightarrow> (exception + 'a) option" where
  "EachSeq 0 seq sep f env acc = None"
| "EachSeq (Suc n) seq sep f env acc =
     (case Resolve env seq of
        None \<Rightarrow> None
      | Some (Compound g args) \<Rightarrow>
          if g \<noteq> sep \<or> length args \<noteq> 2 then Some (f seq acc)
          else
            (case f (args ! 0) acc of
               Inl err \<Rightarrow> Some (Inl err)
             | Inr acc' \<Rightarrow> EachSeq n (args ! 1) sep f env acc')
      | Some _ \<Rightarrow> Some (f seq acc))"

definition Each :: "nat \<Rightarrow> Term \<Rightarrow> (Term \<Rightarrow> 'a \<Rightarrow> exception + 'a) \<Rightarrow> Env \<Rightarrow> 'a
    \<Rightarrow> (exception + 'a) option" where
  "Each n any f env acc =
     (case Resolve env any of
        None \<Rightarrow> None
      | Some (Compound g args) \<Rightarrow>
          if g = ''.'' \<and> length args = 2 then EachList n any f env acc
          else EachSeq n any '','' f env acc
      | Some _ \<Rightarrow> EachSeq n any '','' f env acc)"

section \<open>The virtual machine\<close>

text \<open>
  Modelled from the spec: the package \<^verbatim>\<open>nondet\<close> is missing from the sources. A promise
  is a node of the lazy tree of alternatives: a boolean result (\<^verbatim>\<open>nondet.Bool\<close>), an error
  (\<^verbatim>\<open>nondet.Error\<close>), an ordered choice of delayed alternatives (\<^verbatim>\<open>nondet.Delay\<close>), each a
  thunk that runs on the state of the machine when it is forced, a cut barrier
  (\<^verbatim>\<open>nondet.Opaque\<close>) and a cut (\<^verbatim>\<open>nondet.Cut\<close>).
\<close>

datatype 's Promise =
    Bool bool
  | Error exception
  | Delay "('s \<Rightarrow> 's Promise \<times> 's) list"
  | Opaque "'s Promise"
  | Cut "'s Promise"

text \<open>
  \<^verbatim>\<open>type unknownAction int\<close> with its three constants; \<^verbatim>\<open>procedureIndicator\<close>; the hooks
  and the logger are recorded as the events they receive.
\<close>

type_synonym unknownAction = int

definition unknownError :: unknownAction where "unknownError = 0"
definition unknownFail :: unknownAction where "unknownFail = 1"
definition unknownWarning :: unknownAction where "unknownWarning = 2"

record procedureIndicator =
  pi_name :: string
  pi_arity :: int

datatype event =
    OnArrive Term
  | OnCall procedureIndicator Term
  | OnExit procedureIndicator Term
  | OnFail procedureIndicator Term
  | OnRedo procedureIndicator Term
  | Warn_unknown_procedure procedureIndicator

text \<open>
  The machine: its procedures (\<^verbatim>\<open>procedure\<close> is an interface, so the table holds values
  of any type \<open>'p\<close> and the method \<^verbatim>\<open>Call\<close> is given separately), the \<^verbatim>\<open>unknown\<close> flag,
  the store of variable references, and the events seen by the hooks and the logger.
\<close>

record 'p VM =
  procedures :: "procedureIndicator \<rightharpoonup> 'p"
  unknown :: unknownAction
  store :: heap
  events :: "event list"

definition collect :: "Term \<Rightarrow> Term list \<Rightarrow> exception + Term list" where
  "collect elem as = Inr (as @ [elem])"

definition arrive ::
  "('p \<Rightarrow> 'p VM \<Rightarrow> Term \<Rightarrow> 'p VM Promise \<Rightarrow> 'p VM Promise \<times> 'p VM) \<Rightarrow>
   nat \<Rightarrow> 'p VM \<Rightarrow> procedureIndicator \<Rightarrow> Term \<Rightarrow> 'p VM Promise \<Rightarrow> ('p VM Promise \<times> 'p VM) option" where
  "arrive Call n vm pi' args k =
     (case Each n args collect (refs (store vm)) [] of
        None \<Rightarrow> None
      | Some (Inl err) \<Rightarrow> Some (Error (systemError err), vm)
      | Some (Inr as) \<Rightarrow>
          (let goal = (if length as = 0 then Atom (pi_name pi') else Compound (pi_name pi') as);
               vm1 = vm\<lparr>events := events vm @ [OnArrive goal]\<rparr> in
           case procedures vm1 pi' of
             None \<Rightarrow>
               if unknown vm1 = unknownError then
                 Some (Error (existenceErrorProcedure
                         (Compound ''/'' [Atom (pi_name pi'), Integer (pi_arity pi')])), vm1)
               else if unknown vm1 = unknownWarning then
                 Some (Bool False, vm1\<lparr>events := events vm1 @ [Warn_unknown_procedure pi']\<rparr>)
               else if unknown vm1 = unknownFail then Some (Bool False, vm1)
               else Some (Error (systemError (unknown_unknown (unknown vm1))), vm1)
           | Some p \<Rightarrow> Some (Delay [\<lambda>vm'. Call p vm' args k], vm1)))"

section \<open>The clause compiler\<close>

text \<open>
  The opcodes, declared by \<^verbatim>\<open>iota\<close>; \<^verbatim>\<open>bytecode\<close> is a slice of bytes.
\<close>

type_synonym byte = "8 word"

definition opVoid :: byte where "opVoid = 0"
definition opEnter :: byte where "opEnter = 1"
definition opCall :: byte where "opCall = 2"
definition opExit :: byte where "opExit = 3"
definition opConst :: byte where "opConst = 4"
definition opVar :: byte where "opVar = 5"
definition opFunctor :: byte where "opFunctor = 6"
definition opPop :: byte where "opPop = 7"
definition opCut :: byte where "opCut = 8"

text \<open>
  The table \<^verbatim>\<open>xrTable\<close> holds the constants of a clause and the procedure indicators it
  names; both are terms in the sources.
\<close>

datatype xr = XrTerm Term | XrPI procedureIndicator

record clause =
  clause_pi :: procedureIndicator
  raw :: Term
  xrTable :: "xr list"
  vars :: "var list"
  bytecode :: "byte list"

datatype 'a go_result = Value 'a | Raise exception | RuntimePanic












text \<open>
  The opcodes of a bytecode, read as \<^verbatim>\<open>exec\<close> reads it: \<^verbatim>\<open>opConst\<close>, \<^verbatim>\<open>opVar\<close>,
  \<^verbatim>\<open>opFunctor\<close> and \<^verbatim>\<open>opCall\<close> are followed by one operand byte (\<^verbatim>\<open>pc = pc[2:]\<close>),
  every other opcode by none (\<^verbatim>\<open>pc = pc[1:]\<close>).
\<close>

definition has_operand :: "byte \<Rightarrow> bool" where
  "has_operand b \<longleftrightarrow> b = opConst \<or> b = opVar \<or> b = opFunctor \<or> b = opCall"










section \<open>The writer: \<^verbatim>\<open>Compound.Unparse\<close>\<close>

text \<open>
  Modelled from the spec: the declarations of \<^verbatim>\<open>Token\<close>, \<^verbatim>\<open>WriteTermOptions\<close> and the
  operators of the writer are missing from the sources. A token has a kind and a value; the
  write options hold the operator table, the ambient priority and the \<^verbatim>\<open>number_vars\<close> flag;
  an operator has a priority, one of the seven specifiers and a name.
\<close>

datatype TokenKind =
    TokenBracketL | TokenBracketR | TokenComma | TokenBar | TokenBraceL | TokenBraceR
  | TokenParenL | TokenParenR | TokenVariable | TokenIdent | TokenGraphic | TokenQuoted
  | TokenInteger | TokenFloat | TokenSign

record Token =
  Kind :: TokenKind
  Val :: string

datatype OperatorSpecifier =
    OperatorSpecifierFX | OperatorSpecifierFY | OperatorSpecifierXF | OperatorSpecifierYF
  | OperatorSpecifierXFX | OperatorSpecifierXFY | OperatorSpecifierYFX

record Operator =
  OpPriority :: int
  Specifier :: OperatorSpecifier
  OpName :: string

record WriteTermOptions =
  Quoted :: bool
  Ops :: "Operator list"
  Priority :: int
  NumberVars :: bool

text \<open>
  An \<^verbatim>\<open>Unparse\<close> emits tokens and returns nothing; it may panic (an index out of range)
  or never return. The result of the model is the list of the tokens emitted, \<open>RuntimePanic\<close>,
  or \<open>None\<close> when the call does not return within the bound on the depth of calls.
\<close>

type_synonym emitted = "Token list go_result option"

definition emit :: "TokenKind \<Rightarrow> string \<Rightarrow> emitted" where
  "emit k v = Some (Value [\<lparr>Kind = k, Val = v\<rparr>])"

definition and_then :: "emitted \<Rightarrow> emitted \<Rightarrow> emitted" where
  "and_then m1 m2 =
     (case m1 of
        None \<Rightarrow> None
      | Some (Value ts1) \<Rightarrow>
          (case m2 of
             None \<Rightarrow> None
           | Some (Value ts2) \<Rightarrow> Some (Value (ts1 @ ts2))
           | Some r \<Rightarrow> Some r)
      | Some r \<Rightarrow> Some r)"

definition all_of :: "emitted list \<Rightarrow> emitted" where
  "all_of ms = foldr and_then ms (Some (Value []))"

text \<open>
  \<^verbatim>\<open>fmt.Sprintf("%d", j)\<close>, and Go's integer division and remainder, which truncate
  towards zero.
\<close>

definition digit :: "nat \<Rightarrow> char" where
  "digit d = ''0123456789'' ! d"

fun string_of_nat :: "nat \<Rightarrow> string" where
  "string_of_nat n =
     (if 10 \<le> n then string_of_nat (n div 10) @ [digit (n mod 10)] else [digit n])"

declare string_of_nat.simps [simp del]

definition string_of_int :: "int \<Rightarrow> string" where
  "string_of_int i = (if i < 0 then ''-'' @ string_of_nat (nat (- i)) else string_of_nat (nat i))"

definition go_quot :: "int \<Rightarrow> int \<Rightarrow> int" where
  "go_quot a b = sgn a * sgn b * (\<bar>a\<bar> div \<bar>b\<bar>)"

definition go_rem :: "int \<Rightarrow> int \<Rightarrow> int" where
  "go_rem a b = sgn a * (\<bar>a\<bar> mod \<bar>b\<bar>)"

definition letters :: string where
  "letters = ''ABCDEFGHIJKLMNOPQRSTUVWXYZ''"

definition number_var :: "int \<Rightarrow> emitted" where
  "number_var n =
     (let i = go_rem n (int (length letters)); j = go_quot n (int (length letters)) in
      if i < 0 then Some RuntimePanic
      else if j = 0 then emit TokenVariable [letters ! nat i]
      else emit TokenVariable ([letters ! nat i] @ string_of_int j))"

text \<open>
  The operator that \<^verbatim>\<open>Unparse\<close> prints a compound of one or two arguments with: the first
  of the table with the name of the functor and a specifier of that arity.
\<close>

definition unary_op :: "Operator list \<Rightarrow> string \<Rightarrow> Operator option" where
  "unary_op ops f =
     find (\<lambda>op. OpName op = f \<and>
              Specifier op \<in> {OperatorSpecifierFX, OperatorSpecifierFY,
                              OperatorSpecifierXF, OperatorSpecifierYF}) ops"

definition binary_op :: "Operator list \<Rightarrow> string \<Rightarrow> Operator option" where
  "binary_op ops f =
     find (\<lambda>op. OpName op = f \<and>
              Specifier op \<in> {OperatorSpecifierXFX, OperatorSpecifierXFY,
                              OperatorSpecifierYFX}) ops"

definition parens :: "bool \<Rightarrow> emitted \<Rightarrow> emitted" where
  "parens b m =
     (if b then and_then (emit TokenParenL ''('') (and_then m (emit TokenParenR '')''))
      else m)"

text \<open>
  \<^verbatim>\<open>Compound.Unparse\<close>. Its calls of \<^verbatim>\<open>env.Resolve(arg).Unparse(emit, opts, env)\<close> are
  \<open>U arg opts\<close>, and its loop over the resolved tail \<open>t\<close> of a list is \<open>T t\<close>; both are
  tied to the recursion below. The \<^verbatim>\<open>Unparse\<close> methods of atoms, numbers and variables are
  missing from the sources: \<open>leaf\<close> gives the tokens they emit.
\<close>

definition UnparseCompound ::
  "(Term \<Rightarrow> WriteTermOptions \<Rightarrow> emitted) \<Rightarrow> (Term \<Rightarrow> emitted) \<Rightarrow>
   (Term \<Rightarrow> WriteTermOptions \<Rightarrow> Env \<Rightarrow> Token list) \<Rightarrow>
   string \<Rightarrow> Term list \<Rightarrow> WriteTermOptions \<Rightarrow> Env \<Rightarrow> emitted" where
  "UnparseCompound U T leaf f args opts env =
     (if f = ''.'' \<and> length args = 2 then
        and_then (emit TokenBracketL ''['')
       (and_then (U (args ! 0) opts)
       (and_then (case Resolve env (args ! 1) of None \<Rightarrow> None | Some t \<Rightarrow> T t)
                 (emit TokenBracketR '']'')))
      else if f = ''{}'' \<and> length args = 1 then
        and_then (emit TokenBraceL ''{'')
       (and_then (U (args ! 0) opts)
                 (emit TokenBraceR ''}''))
      else
        (case (if length args = 1 then unary_op (Ops opts) f
               else if length args = 2 then binary_op (Ops opts) f
               else None) of
           Some op \<Rightarrow>
             parens (OpPriority op > Priority opts)
               (if Specifier op \<in> {OperatorSpecifierFX, OperatorSpecifierFY} then
                  and_then (Some (Value (leaf (Atom f) opts env)))
                           (U (args ! 0) (opts\<lparr>Priority := OpPriority op\<rparr>))
                else if Specifier op \<in> {OperatorSpecifierXF, OperatorSpecifierYF} then
                  and_then (U (args ! 0) (opts\<lparr>Priority := OpPriority op\<rparr>))
                           (Some (Value (leaf (Atom f) opts env)))
                else
                  and_then (U (args ! 0) (opts\<lparr>Priority := OpPriority op\<rparr>))
                 (and_then (Some (Value (leaf (Atom f) opts env)))
                           (U (args ! 1) (opts\<lparr>Priority := OpPriority op\<rparr>))))
         | None \<Rightarrow>
             (case (if NumberVars opts \<and> f = ''$VAR'' \<and> length args = 1
                    then Resolve env (args ! 0) else Some (Atom [])) of
                None \<Rightarrow> None
              | Some (Integer i) \<Rightarrow> number_var i
              | Some _ \<Rightarrow>
                  and_then (Some (Value (leaf (Atom f) opts env)))
                 (and_then (emit TokenParenL ''('')
                 (case args of
                    [] \<Rightarrow> Some RuntimePanic
                  | a # as \<Rightarrow>
                      and_then (U a opts)
                     (and_then (all_of (map (\<lambda>arg. and_then (emit TokenComma '','') (U arg opts)) as))
                               (emit TokenParenR '')'')))))))"

text \<open>
  \<^verbatim>\<open>t.Unparse(emit, opts, env)\<close> on a resolved term: the method of a compound, or the
  tokens of an atom, a number or a variable.
\<close>

definition UnparseResolved ::
  "(Term \<Rightarrow> WriteTermOptions \<Rightarrow> emitted) \<Rightarrow> (Term \<Rightarrow> emitted) \<Rightarrow>
   (Term \<Rightarrow> WriteTermOptions \<Rightarrow> Env \<Rightarrow> Token list) \<Rightarrow>
   Term \<Rightarrow> WriteTermOptions \<Rightarrow> Env \<Rightarrow> emitted" where
  "UnparseResolved U T leaf r opts env =
     (case r of
        Compound f args \<Rightarrow> UnparseCompound U T leaf f args opts env
      | _ \<Rightarrow> Some (Value (leaf r opts env)))"

text \<open>
  The loop of \<^verbatim>\<open>Compound.Unparse\<close> over the tail of a list, one round: a further cell
  \<^verbatim>\<open>./2\<close> emits a comma and its head and goes on with its resolved tail; \<^verbatim>\<open>[]\<close> ends
  the list; anything else is written after a bar.
\<close>

definition UnparseTail_step ::
  "(Term \<Rightarrow> WriteTermOptions \<Rightarrow> emitted) \<Rightarrow> (Term \<Rightarrow> emitted) \<Rightarrow>
   (Term \<Rightarrow> WriteTermOptions \<Rightarrow> Env \<Rightarrow> Token list) \<Rightarrow>
   Term \<Rightarrow> WriteTermOptions \<Rightarrow> Env \<Rightarrow> emitted" where
  "UnparseTail_step U T leaf t opts env =
     (case t of
        Compound f args \<Rightarrow>
          if f = ''.'' \<and> length args = 2 then
            and_then (emit TokenComma '','')
           (and_then (U (args ! 0) opts)
                     (case Resolve env (args ! 1) of None \<Rightarrow> None | Some t' \<Rightarrow> T t'))
          else and_then (emit TokenBar ''|'') (UnparseResolved U T leaf t opts env)
      | Atom a \<Rightarrow>
          if a = ''[]'' then Some (Value [])
          else and_then (emit TokenBar ''|'') (UnparseResolved U T leaf t opts env)
      | _ \<Rightarrow> and_then (emit TokenBar ''|'') (UnparseResolved U T leaf t opts env))"

text \<open>
  The recursion: \<open>Unparse\<close> is \<^verbatim>\<open>env.Resolve(t).Unparse(emit, opts, env)\<close> and
  \<open>UnparseTail\<close> is the loop over the tail. Neither need return on a cyclic term, so both
  take a bound on the number of nested calls and rounds.
\<close>

fun Unparse :: "nat \<Rightarrow> (Term \<Rightarrow> WriteTermOptions \<Rightarrow> Env \<Rightarrow> Token list) \<Rightarrow> Term \<Rightarrow> WriteTermOptions \<Rightarrow> Env \<Rightarrow> emitted"
  and UnparseTail :: "nat \<Rightarrow> (Term \<Rightarrow> WriteTermOptions \<Rightarrow> Env \<Rightarrow> Token list) \<Rightarrow> Term \<Rightarrow> WriteTermOptions \<Rightarrow> Env \<Rightarrow> emitted"
  where
  "Unparse 0 leaf t opts env = None"
| "Unparse (Suc n) leaf t opts env =
     (case Resolve env t of
        None \<Rightarrow> None
      | Some r \<Rightarrow>
          UnparseResolved (\<lambda>t' opts'. Unparse n leaf t' opts' env)
            (\<lambda>t'. UnparseTail n leaf t' opts env) leaf r opts env)"
| "UnparseTail 0 leaf t opts env = None"
| "UnparseTail (Suc n) leaf t opts env =
     UnparseTail_step (\<lambda>t' opts'. Unparse n leaf t' opts' env)
       (\<lambda>t'. UnparseTail n leaf t' opts env) leaf t opts env"

text \<open>
  A term is finite under an environment when it resolves and, if it resolves to a compound,
  every argument is finite under the environment. A call returns when some bound on the depth
  of calls is enough.
\<close>

inductive finite_under :: "Env \<Rightarrow> Term \<Rightarrow> bool" where
  finite_leaf: "Resolve env t = Some r \<Longrightarrow> \<forall>f args. r \<noteq> Compound f args \<Longrightarrow> finite_under env t"
| finite_compound:
    "Resolve env t = Some (Compound f args) \<Longrightarrow> list_all (finite_under env) args \<Longrightarrow>
     finite_under env t"

definition Unparse_returns :: "(Term \<Rightarrow> WriteTermOptions \<Rightarrow> Env \<Rightarrow> Token list) \<Rightarrow> Term \<Rightarrow> WriteTermOptions \<Rightarrow> Env \<Rightarrow> bool" where
  "Unparse_returns leaf t opts env \<longleftrightarrow> (\<exists>n. Unparse n leaf t opts env \<noteq> None)"

text \<open>
  The tokens that the tests of the writer expect for an atom and for an integer: an identifier
  with the name of the atom; a sign for a negative integer, then its digits.
\<close>

definition test_leaf :: "Term \<Rightarrow> WriteTermOptions \<Rightarrow> Env \<Rightarrow> Token list" where
  "test_leaf t opts env =
     (case t of
        Atom a \<Rightarrow> [\<lparr>Kind = TokenIdent, Val = a\<rparr>]
      | Integer i \<Rightarrow>
          (if i < 0 then [\<lparr>Kind = TokenSign, Val = ''-''\<rparr>] else [])
          @ [\<lparr>Kind = TokenInteger, Val = string_of_nat (nat \<bar>i\<bar>)\<rparr>]
      | _ \<Rightarrow> [])"

text \<open>
  The order of results in the bound: a call that does not return within a bound is below every
  result.
\<close>

definition le_out :: "emitted \<Rightarrow> emitted \<Rightarrow> bool" where
  "le_out m m' \<longleftrightarrow> (m = None \<or> m = m')"

section \<open>The database: \<^verbatim>\<open>assertz/1\<close> and the call of a user-defined procedure\<close>

text \<open>
  The engine of \<^verbatim>\<open>builtin.go\<close> keeps its procedures under the key \<^verbatim>\<open>name/arity\<close>. A
  procedure is an interface: the clause vector \<^verbatim>\<open>clauses\<close>, or anything else, which
  \<^verbatim>\<open>Assertz\<close> refuses. The clause type of that engine, its \<^verbatim>\<open>compile\<close> and its
  \<^verbatim>\<open>arrive\<close> are not in the sources: the clause is a type parameter and the two functions
  are arguments of \<open>Assertz\<close>.
\<close>

datatype 'c procedure = Clauses "'c list" | Builtin

record 'c Engine =
  procedures' :: "string \<rightharpoonup> 'c procedure"
  heap_of :: heap

text \<open>
  \<^verbatim>\<open>nameArgs\<close>: the key of a callable term and the list of its arguments. The key is
  \<^verbatim>\<open>fmt.Sprintf("%s/%d", f.Functor, len(f.Args))\<close>, with the text of the atom for \<^verbatim>\<open>%s\<close>.
\<close>

definition nameArgs :: "Env \<Rightarrow> Term \<Rightarrow> (builtin_error + string \<times> Term) option" where
  "nameArgs env t =
     (case Resolve env t of
        None \<Rightarrow> None
      | Some (Atom f) \<Rightarrow> Some (Inr (f @ ''/0'', List []))
      | Some (Compound f args) \<Rightarrow>
          Some (Inr (f @ ''/'' @ string_of_nat (length args), List args))
      | Some _ \<Rightarrow> Some (Inl not_callable))"

text \<open>
  \<^verbatim>\<open>p, ok := e.procedures[name]\<close>, an empty vector when there is none, and then the type
  assertion \<^verbatim>\<open>p.(clauses)\<close>.
\<close>

definition clauses_of :: "'c procedure option \<Rightarrow> 'c list option" where
  "clauses_of p =
     (case p of
        None \<Rightarrow> Some []
      | Some (Clauses cs) \<Rightarrow> Some cs
      | Some Builtin \<Rightarrow> None)"

text \<open>
  The second half of \<^verbatim>\<open>Assertz\<close>: compile the term into a clause of the procedure
  \<open>name\<close> and store \<^verbatim>\<open>append(cs, c)\<close>.
\<close>

definition store_clause ::
  "(string \<Rightarrow> Term \<Rightarrow> heap \<Rightarrow> builtin_error + 'c) \<Rightarrow> string \<Rightarrow> Term \<Rightarrow> 'c Engine
    \<Rightarrow> outcome \<times> 'c Engine" where
  "store_clause compile' name t e =
     (case clauses_of (procedures' e name) of
        None \<Rightarrow> (Return False (Some builtin), e)
      | Some cs \<Rightarrow>
          (case compile' name t (heap_of e) of
             Inl err \<Rightarrow> (Return False (Some err), e)
           | Inr c \<Rightarrow> (Continue, e\<lparr>procedures' := (procedures' e)(name \<mapsto> Clauses (cs @ [c]))\<rparr>)))"

text \<open>
  \<^verbatim>\<open>args.Unify(Cons(&d, &Variable{}))\<close> followed by \<^verbatim>\<open>nameArgs(&d)\<close>: the key and the
  arguments of the first argument of \<open>:-\<close>, with two fresh variables. The result of the
  unification is not looked at.
\<close>

definition first_nameArgs :: "nat \<Rightarrow> Term \<Rightarrow> 'c Engine
    \<Rightarrow> ((builtin_error + string \<times> Term) \<times> 'c Engine) option" where
  "first_nameArgs n args e =
     (let h = heap_of e; d = next_var h; h1 = h\<lparr>next_var := next_var h + 2\<rparr> in
      case Unify n args (Cons (Variable d) (Variable (d + 1))) False (refs h1) of
        None \<Rightarrow> None
      | Some (env1, ok) \<Rightarrow>
          (case nameArgs env1 (Variable d) of
             None \<Rightarrow> None
           | Some r \<Rightarrow> Some (r, e\<lparr>heap_of := h1\<lparr>refs := env1\<rparr>\<rparr>)))"

text \<open>
  The key under which the clause is stored: for \<open>Head :- Body\<close> the key of the head, for
  any other term its own.
\<close>

definition clause_key :: "nat \<Rightarrow> string \<Rightarrow> Term \<Rightarrow> 'c Engine
    \<Rightarrow> ((builtin_error + string) \<times> 'c Engine) option" where
  "clause_key n name args e =
     (if name = '':-/2'' then
        (case first_nameArgs n args e of
           None \<Rightarrow> None
         | Some (Inl err, e1) \<Rightarrow> Some (Inl err, e1)
         | Some (Inr (name1, args1), e1) \<Rightarrow> Some (Inr name1, e1))
      else Some (Inr name, e))"

definition Assertz ::
  "nat \<Rightarrow> (string \<Rightarrow> Term \<Rightarrow> heap \<Rightarrow> builtin_error + 'c)
    \<Rightarrow> (string \<Rightarrow> Term \<Rightarrow> 'c Engine \<Rightarrow> (bool \<times> builtin_error option) \<times> 'c Engine)
    \<Rightarrow> Term \<Rightarrow> 'c Engine \<Rightarrow> (outcome \<times> 'c Engine) option" where
  "Assertz n compile' arrive' t e =
     (case nameArgs (refs (heap_of e)) t of
        None \<Rightarrow> None
      | Some (Inl err) \<Rightarrow> Some (Return False (Some err), e)
      | Some (Inr (name, args)) \<Rightarrow>
          if name = '':-/1'' then
            (case first_nameArgs n args e of
               None \<Rightarrow> None
             | Some (Inl err, e1) \<Rightarrow> Some (Return False (Some err), e1)
             | Some (Inr (name1, args1), e1) \<Rightarrow>
                 (case arrive' name1 args1 e1 of
                    ((ok, Some err), e2) \<Rightarrow> Some (Return False (Some err), e2)
                  | ((ok, None), e2) \<Rightarrow> Some (Return ok None, e2)))
          else
            (case clause_key n name args e of
               None \<Rightarrow> None
             | Some (Inl err, e1) \<Rightarrow> Some (Return False (Some err), e1)
             | Some (Inr name1, e1) \<Rightarrow> Some (store_clause compile' name1 t e1)))"

subsection \<open>\<^verbatim>\<open>clauses.Call\<close>\<close>

text \<open>
  \<^verbatim>\<open>FreeVariables\<close> collects the unbound variables of the terms, each once, in the order
  met. It follows \<^verbatim>\<open>Ref\<close> and need not end on a cyclic term, so it takes a bound on the depth
  of calls. \<^verbatim>\<open>ResetVariables\<close> sets the \<^verbatim>\<open>Ref\<close> of each variable to nil.
\<close>

fun appendFreeVariables :: "nat \<Rightarrow> Env \<Rightarrow> var list \<Rightarrow> Term \<Rightarrow> var list option"
  and appendFreeVariablesArgs :: "nat \<Rightarrow> Env \<Rightarrow> var list \<Rightarrow> Term list \<Rightarrow> var list option" where
  "appendFreeVariables 0 env fvs t = None"
| "appendFreeVariables (Suc n) env fvs (Variable v) =
     (case Lookup env v of
        Some r \<Rightarrow> appendFreeVariables n env fvs r
      | None \<Rightarrow> if v \<in> set fvs then Some fvs else Some (fvs @ [v]))"
| "appendFreeVariables (Suc n) env fvs (Compound f args) = appendFreeVariablesArgs n env fvs args"
| "appendFreeVariables (Suc n) env fvs (Atom a) = Some fvs"
| "appendFreeVariables (Suc n) env fvs (Integer i) = Some fvs"
| "appendFreeVariables (Suc n) env fvs (Float x) = Some fvs"
| "appendFreeVariablesArgs n env fvs [] = Some fvs"
| "appendFreeVariablesArgs n env fvs (a # as) =
     (case appendFreeVariables n env fvs a of
        None \<Rightarrow> None
      | Some fvs' \<Rightarrow> appendFreeVariablesArgs n env fvs' as)"

definition FreeVariables :: "nat \<Rightarrow> Env \<Rightarrow> Term list \<Rightarrow> var list option" where
  "FreeVariables n env ts = appendFreeVariablesArgs n env [] ts"

definition ResetVariables :: "var list \<Rightarrow> heap \<Rightarrow> heap" where
  "ResetVariables vs h = h\<lparr>refs := filter (\<lambda>b. fst b \<notin> set vs) (refs h)\<rparr>"

text \<open>
  The continuations of a running clause, and \<^verbatim>\<open>vm.exec\<close> as an argument: the call of a
  procedure decides which clause runs and when, not what running it does.
\<close>

record 's cont =
  exit :: "'s Promise"
  fail :: "'s Promise"

type_synonym 'p exec =
  "'p VM \<Rightarrow> byte list \<Rightarrow> xr list \<Rightarrow> Term list \<Rightarrow> 'p VM cont \<Rightarrow> Term \<Rightarrow> Term
    \<Rightarrow> 'p VM Promise \<times> 'p VM"

definition notify :: "event \<Rightarrow> 'p VM \<Rightarrow> 'p VM" where
  "notify ev vm = vm\<lparr>events := events vm @ [ev]\<rparr>"

text \<open>
  The closure \<^verbatim>\<open>ks[i]\<close> for the clause \<open>c\<close> at index \<open>i\<close> of the vector: the first clause
  is announced by \<^verbatim>\<open>OnCall\<close>, every later one by \<^verbatim>\<open>OnRedo\<close> after the variables of the
  call have been reset; then the variables of the clause are made and its bytecode is run,
  delayed.
\<close>

definition alternative :: "'p exec \<Rightarrow> var list \<Rightarrow> Term \<Rightarrow> 'p VM Promise \<Rightarrow> nat \<Rightarrow> clause
    \<Rightarrow> 'p VM \<Rightarrow> 'p VM Promise \<times> 'p VM" where
  "alternative exec fvs args k i c vm =
     (let vm1 = (if i = 0 then notify (OnCall (clause_pi c) args) vm
                 else notify (OnRedo (clause_pi c) args)
                        (vm\<lparr>store := ResetVariables fvs (store vm)\<rparr>));
          vars' = fresh_vars (store vm1) (length (vars c));
          vm2 = vm1\<lparr>store := (store vm1)\<lparr>next_var := next_var (store vm1) + length (vars c)\<rparr>\<rparr>
      in (Delay [\<lambda>vm'. exec vm' (bytecode c) (xrTable c) vars'
                   \<lparr>exit = Delay [\<lambda>v. (k, notify (OnExit (clause_pi c) args) v)],
                    fail = Delay [\<lambda>v. (Bool False,
                             (notify (OnFail (clause_pi c) args) v)
                               \<lparr>store := ResetVariables fvs (store v)\<rparr>)]\<rparr>
                   args (List [])],
          vm2))"

definition clauses_Call :: "'p exec \<Rightarrow> nat \<Rightarrow> clause list \<Rightarrow> 'p VM \<Rightarrow> Term \<Rightarrow> 'p VM Promise
    \<Rightarrow> 'p VM Promise option" where
  "clauses_Call exec n cs vm args k =
     (if length cs = 0 then Some (Bool False)
      else
        (case FreeVariables n (refs (store vm)) [args] of
           None \<Rightarrow> None
         | Some fvs \<Rightarrow>
             Some (Opaque (Delay (map (\<lambda>i. alternative exec fvs args k i (cs ! i))
                                    [0..<length cs])))))"

text \<open>
  Modelled from the spec: the driver of the package \<^verbatim>\<open>nondet\<close> is missing from the sources.
  \<^verbatim>\<open>Force\<close> walks the tree depth first and from left to right. It forces the first thunk of
  a choice and goes on with the next one only when what the thunk produced has failed
  without a cut. \<^verbatim>\<open>exec\<close> wraps in \<^verbatim>\<open>nondet.Cut\<close> what follows a cut in a clause, so a cut
  discards the alternatives that are left up to the enclosing barrier \<^verbatim>\<open>Opaque\<close>, whatever
  becomes of what follows it. The result is the boolean or the error, whether a cut is on its way
  to the barrier, and the state. The bound is on the depth of the walk.
\<close>

fun Force :: "nat \<Rightarrow> 's Promise \<Rightarrow> 's \<Rightarrow> ((exception + bool) \<times> bool \<times> 's) option" where
  "Force 0 p s = None"
| "Force (Suc n) (Bool b) s = Some (Inr b, False, s)"
| "Force (Suc n) (Error err) s = Some (Inl err, False, s)"
| "Force (Suc n) (Delay []) s = Some (Inr False, False, s)"
| "Force (Suc n) (Delay (k # ks)) s =
     (case k s of
        (p, s1) \<Rightarrow>
          (case Force n p s1 of
             None \<Rightarrow> None
           | Some (r, cutting, s2) \<Rightarrow>
               if r = Inr False \<and> \<not> cutting then Force n (Delay ks) s2
               else Some (r, cutting, s2)))"
| "Force (Suc n) (Opaque p) s =
     (case Force n p s of
        None \<Rightarrow> None
      | Some (r, cutting, s') \<Rightarrow> Some (r, False, s'))"
| "Force (Suc n) (Cut p) s =
     (case Force n p s of
        None \<Rightarrow> None
      | Some (r, cutting, s') \<Rightarrow> Some (r, True, s'))"

definition Force_returns :: "'s Promise \<Rightarrow> 's \<Rightarrow> (exception + bool) \<times> bool \<times> 's \<Rightarrow> bool" where
  "Force_returns p s res \<longleftrightarrow> (\<exists>n. Force n p s = Some res)"

text \<open>
  The attempt of the clause \<open>c\<close> at index \<open>i\<close>: its closure alone, forced and driven.
\<close>

definition attempt :: "'p exec \<Rightarrow> var list \<Rightarrow> Term \<Rightarrow> 'p VM Promise \<Rightarrow> nat \<Rightarrow> clause
    \<Rightarrow> 'p VM \<Rightarrow> (exception + bool) \<times> bool \<times> 'p VM \<Rightarrow> bool" where
  "attempt exec fvs args k i c vm res \<longleftrightarrow>
     Force_returns (Delay [alternative exec fvs args k i c]) vm res"

text \<open>
  The words of the specification for the call of a clause vector: the clauses are attempted
  in the order of the vector, the first clause first, and a later clause only after the
  attempt of the clause before it has failed; the first attempt that does not simply fail
  decides. \<open>attempt i c s res\<close> says that the attempt of the clause \<open>c\<close> at index \<open>i\<close> in
  the state \<open>s\<close> gives \<open>res\<close>.
\<close>

inductive in_vector_order ::
  "(nat \<Rightarrow> 'c \<Rightarrow> 's \<Rightarrow> (exception + bool) \<times> bool \<times> 's \<Rightarrow> bool)
    \<Rightarrow> nat \<Rightarrow> 'c list \<Rightarrow> 's \<Rightarrow> (exception + bool) \<times> 's \<Rightarrow> bool"
  for attempt where
  no_clause_left: "in_vector_order attempt i [] s (Inr False, s)"
| decided: "attempt i c s (r, cutting, s') \<Longrightarrow> r \<noteq> Inr False \<or> cutting
            \<Longrightarrow> in_vector_order attempt i (c # cs) s (r, s')"
| redo: "attempt i c s (Inr False, False, s') \<Longrightarrow> in_vector_order attempt (Suc i) cs s' res
            \<Longrightarrow> in_vector_order attempt i (c # cs) s res"

text \<open>
  An example: the procedure \<open>foo/1\<close> with one clause, a second clause for it, a compiler
  that yields that second clause, and an \<^verbatim>\<open>exec\<close> under which the first clause fails and
  the second one exits.
\<close>

definition example_clause :: "Term \<Rightarrow> byte list \<Rightarrow> clause" where
  "example_clause t code =
     \<lparr>clause_pi = \<lparr>pi_name = ''foo'', pi_arity = 1\<rparr>, raw = t, xrTable = [], vars = [],
      bytecode = code\<rparr>"

definition example_engine :: "clause Engine" where
  "example_engine =
     \<lparr>procedures' = [''foo/1'' \<mapsto> Clauses [example_clause (Atom ''a'') [opVoid]]],
      heap_of = \<lparr>refs = [], next_var = 1\<rparr>\<rparr>"

definition example_compile :: "string \<Rightarrow> Term \<Rightarrow> heap \<Rightarrow> builtin_error + clause" where
  "example_compile name t h = Inr (example_clause t [opExit])"

definition example_arrive :: "string \<Rightarrow> Term \<Rightarrow> clause Engine
    \<Rightarrow> (bool \<times> builtin_error option) \<times> clause Engine" where
  "example_arrive name args e = ((True, None), e)"

definition example_exec :: "unit exec" where
  "example_exec vm code xrs vs k args astack = (if code = [opVoid] then fail k else exit k, vm)"

definition example_vm :: "unit VM" where
  "example_vm =
     \<lparr>procedures = Map.empty, unknown = unknownError, store = \<lparr>refs = [], next_var = 1\<rparr>,
      events = []\<rparr>"

section \<open>Properties\<close>

lemma wrap64_id: "- (2 ^ 63) \<le> x \<Longrightarrow> x < 2 ^ 63 \<Longrightarrow> wrap64 x = x"
  by (simp add: wrap64_def)

lemmas operatorSpecifier_defs =
  operatorSpecifierFX_def operatorSpecifierFY_def operatorSpecifierXF_def
  operatorSpecifierYF_def operatorSpecifierXFX_def operatorSpecifierXFY_def
  operatorSpecifierYFX_def

text \<open>
  C8. For an operator of priority \<open>P\<close> (a priority lies in 1..1200), the left and right
  binding priorities are: fx \<open>(\<infinity>, P-1)\<close>, fy \<open>(\<infinity>, P)\<close>, xf \<open>(P-1, \<infinity>)\<close>,
  yf \<open>(P, \<infinity>)\<close>, xfx \<open>(P-1, P-1)\<close>, xfy \<open>(P-1, P)\<close>, yfx \<open>(P, P-1)\<close>, where
  \<open>\<infinity>\<close> is the constant 1202, which is strictly greater than 1201.
\<close>

theorem bindingPriorities_table:
  assumes "1 \<le> P" and "P \<le> 1200"
  shows "bindingPriorities \<lparr>priority = P, specifier = operatorSpecifierFX, name' = n\<rparr> = (1202, P - 1)
       \<and> bindingPriorities \<lparr>priority = P, specifier = operatorSpecifierFY, name' = n\<rparr> = (1202, P)
       \<and> bindingPriorities \<lparr>priority = P, specifier = operatorSpecifierXF, name' = n\<rparr> = (P - 1, 1202)
       \<and> bindingPriorities \<lparr>priority = P, specifier = operatorSpecifierYF, name' = n\<rparr> = (P, 1202)
       \<and> bindingPriorities \<lparr>priority = P, specifier = operatorSpecifierXFX, name' = n\<rparr> = (P - 1, P - 1)
       \<and> bindingPriorities \<lparr>priority = P, specifier = operatorSpecifierXFY, name' = n\<rparr> = (P - 1, P)
       \<and> bindingPriorities \<lparr>priority = P, specifier = operatorSpecifierYFX, name' = n\<rparr> = (P, P - 1)
       \<and> (1201 :: int) < 1202"
  using assms by (simp add: bindingPriorities_def operatorSpecifier_defs wrap64_id)

theorem bindingPriorities_table_witness:
  "(1 :: int) \<le> 700 \<and> (700 :: int) \<le> 1200
   \<and> bindingPriorities \<lparr>priority = 700, specifier = operatorSpecifierXFX, name' = ''=''\<rparr> = (699, 699)
   \<and> bindingPriorities \<lparr>priority = 700, specifier = operatorSpecifierFY, name' = ''=''\<rparr> = (1202, 700)"
  using bindingPriorities_table [of 700 "''=''"] by simp

subsection \<open>Resolution and unification: basic facts\<close>

lemma Resolve_nonvar [simp]:
  "Resolve env (Atom a) = Some (Atom a)"
  "Resolve env (Integer i) = Some (Integer i)"
  "Resolve env (Float x) = Some (Float x)"
  "Resolve env (Compound f args) = Some (Compound f args)"
  by (simp_all add: Resolve.simps)

lemma Resolve_Variable:
  "Resolve env (Variable v) =
     (case Lookup env v of None \<Rightarrow> Some (Variable v) | Some t' \<Rightarrow> Resolve env t')"
  by (subst Resolve.simps) simp

lemma Resolve_unbound:
  assumes "Resolve env t = Some r"
  shows "r = Variable w \<Longrightarrow> Lookup env w = None"
  using assms
  by (induction arbitrary: w rule: Resolve.raw_induct[rotated 1, consumes 1])
     (auto split: Term.splits option.splits)

lemma Resolve_idem:
  assumes "Resolve env t = Some r"
  shows "Resolve env r = Some r"
  using assms
  by (induction rule: Resolve.raw_induct[rotated 1, consumes 1])
     (auto split: Term.splits option.splits simp: Resolve_Variable)

lemma Contains_mono:
  "Contains n t v env = Some b \<Longrightarrow> n \<le> m \<Longrightarrow> Contains m t v env = Some b"
  "ContainsArgs n ts v env = Some b \<Longrightarrow> n \<le> m \<Longrightarrow> ContainsArgs m ts v env = Some b"
proof (induction n t v env and n ts v env arbitrary: m b and m b rule: Contains_ContainsArgs.induct)
  case (2 n t v env)
  then obtain m' where m: "m = Suc m'" and le: "n \<le> m'" by (cases m) auto
  show ?case
  proof (cases "Resolve env t")
    case None
    with 2(2) show ?thesis by simp
  next
    case (Some r)
    show ?thesis
    proof (cases r)
      case (Compound f args)
      with Some 2(2) have "ContainsArgs n args v env = Some b" by simp
      from 2(1)[OF Some Compound this le] show ?thesis
        unfolding m using Some Compound by simp
    qed (use 2(2) Some m in simp_all)
  qed
next
  case (4 n a as v env)
  show ?case
  proof (cases "Contains n a v env")
    case None
    with 4(3) show ?thesis by simp
  next
    case (Some c)
    note c = 4(1)[OF Some 4(4)]
    show ?thesis
    proof (cases c)
      case True
      with Some 4(3) c show ?thesis by simp
    next
      case False
      with Some 4(3) have "ContainsArgs n as v env = Some b" by simp
      moreover have "c = False" using False by simp
      ultimately have "ContainsArgs m as v env = Some b" using 4(2)[OF Some _ _ 4(4)] by blast
      then show ?thesis using c False by simp
    qed
  qed
qed simp_all


lemma UnifyArgs_mono_aux:
  assumes U: "\<And>t1 t2 env r. Unify n t1 t2 oc env = Some r \<Longrightarrow> Unify m t1 t2 oc env = Some r"
  shows "UnifyArgs n as ts oc env = Some r \<Longrightarrow> UnifyArgs m as ts oc env = Some r"
proof (induction as arbitrary: ts env)
  case Nil
  then show ?case by simp
next
  case (Cons a as)
  show ?case
  proof (cases ts)
    case Nil
    with Cons.prems show ?thesis by simp
  next
    case (Cons t ts')
    from Cons.prems obtain env1 ok where
      u: "Unify n a t oc env = Some (env1, ok)"
      unfolding Cons by (auto split: option.splits)
    note u' = U[OF u]
    show ?thesis
    proof (cases ok)
      case True
      with Cons.prems u have "UnifyArgs n as ts' oc env1 = Some r" unfolding Cons by simp
      from Cons.IH[OF this] u' True show ?thesis unfolding Cons by simp
    next
      case False
      with Cons.prems u have "r = (env1, False)" unfolding Cons by simp
      with u' False show ?thesis unfolding Cons by simp
    qed
  qed
qed


lemma Unify_Suc_mono:
  assumes U: "\<And>t1 t2 env r. Unify n t1 t2 oc env = Some r \<Longrightarrow> Unify m t1 t2 oc env = Some r"
    and C: "\<And>t v env b. Contains n t v env = Some b \<Longrightarrow> Contains m t v env = Some b"
    and p: "Unify (Suc n) t1 t2 oc env = Some r"
  shows "Unify (Suc m) t1 t2 oc env = Some r"
proof -
  have UA: "\<And>as ts env r. UnifyArgs n as ts oc env = Some r \<Longrightarrow> UnifyArgs m as ts oc env = Some r"
    using UnifyArgs_mono_aux[of n oc m] U by blast
  from p obtain t where R: "Resolve env t2 = Some t"
    by (cases "Resolve env t2"; cases t1; cases "Resolve env t1") (auto split: Term.splits)
  show ?thesis
  proof (cases t1)
    case (Atom a)
    show ?thesis using p U unfolding Atom by (cases t) (simp_all add: R)
  next
    case (Integer i)
    show ?thesis using p U unfolding Integer by (cases t) (simp_all add: R)
  next
    case (Float x)
    show ?thesis using p U unfolding Float by (cases t) (simp_all add: R)
  next
    case (Compound f args)
    show ?thesis using p U UA unfolding Compound
      by (cases t) (auto simp: R split: if_splits)
  next
    case t1: (Variable v)
    from p obtain rv where Rv: "Resolve env (Variable v) = Some rv"
      unfolding t1 by (cases "Resolve env (Variable v)") auto
    show ?thesis
    proof (cases rv)
      case (Variable v')
      show ?thesis
      proof (cases "t = Variable v' \<or> \<not> oc")
        case True
        then show ?thesis using p unfolding t1
          by (auto simp: Rv R Variable)
      next
        case False
        with p obtain b where c: "Contains n t v' env = Some b"
          unfolding t1 by (cases "Contains n t v' env") (auto simp: Rv R Variable)
        from False p c C[OF c] show ?thesis unfolding t1
          by (cases b) (auto simp: Rv R Variable)
      qed
    qed (use p U in \<open>simp_all add: t1 Rv R\<close>)
  qed
qed

lemma Unify_mono:
  "Unify n t1 t2 oc env = Some r \<Longrightarrow> n \<le> m \<Longrightarrow> Unify m t1 t2 oc env = Some r"
proof (induction n arbitrary: m t1 t2 env r)
  case 0
  then show ?case by simp
next
  case (Suc n)
  from Suc.prems(2) obtain m' where m: "m = Suc m'" and le: "n \<le> m'" by (cases m) auto
  have U: "Unify m' t1 t2 oc env = Some r" if "Unify n t1 t2 oc env = Some r" for t1 t2 env r
    using that le by (rule Suc.IH)
  have C: "Contains m' t v env = Some b" if "Contains n t v env = Some b" for t v env b
    using that le by (rule Contains_mono(1))
  show ?case unfolding m using U C Suc.prems(1) by (rule Unify_Suc_mono)
qed

lemma UnifyArgs_mono:
  assumes "UnifyArgs n as ts oc env = Some r" and "n \<le> m"
  shows "UnifyArgs m as ts oc env = Some r"
proof (rule UnifyArgs_mono_aux[OF _ assms(1)])
  show "Unify m t1 t2 oc env = Some r" if "Unify n t1 t2 oc env = Some r" for t1 t2 env r
    using that assms(2) by (rule Unify_mono)
qed

subsection \<open>Unification of a compound\<close>

lemma UnifyArgs_pairwise:
  "UnifyArgs n as bs oc env = Some (env', True) \<Longrightarrow> length as = length bs \<Longrightarrow>
   unify_pairwise as bs oc env env'"
proof (induction as arbitrary: bs env)
  case Nil
  then show ?case by (simp add: unify_pairwise_Nil)
next
  case (Cons a as)
  from Cons.prems(2) obtain b bs' where bs: "bs = b # bs'" and len: "length as = length bs'"
    by (cases bs) auto
  from Cons.prems(1) obtain env1 ok where u: "Unify n a b oc env = Some (env1, ok)"
    unfolding bs by (auto split: option.splits)
  with Cons.prems(1) have ok: "ok" and rest: "UnifyArgs n as bs' oc env1 = Some (env', True)"
    unfolding bs by (auto split: if_splits)
  from u ok have "Unify_returns a b oc env (env1, True)"
    unfolding Unify_returns_def by auto
  then show ?case unfolding bs using Cons.IH[OF rest len] by (rule unify_pairwise_Cons)
qed

lemma pairwise_UnifyArgs:
  "unify_pairwise as bs oc env env' \<Longrightarrow>
   length as = length bs \<and> (\<exists>n. UnifyArgs n as bs oc env = Some (env', True))"
proof (induction rule: unify_pairwise.induct)
  case (unify_pairwise_Nil oc env)
  show ?case by simp
next
  case (unify_pairwise_Cons a b oc env env1 as bs env')
  then obtain n1 n2 where n1: "Unify n1 a b oc env = Some (env1, True)"
    and n2: "UnifyArgs n2 as bs oc env1 = Some (env', True)"
    and len: "length as = length bs"
    unfolding Unify_returns_def by blast
  have "Unify (max n1 n2) a b oc env = Some (env1, True)"
    using n1 by (rule Unify_mono) simp
  moreover have "UnifyArgs (max n1 n2) as bs oc env1 = Some (env', True)"
    using n2 by (rule UnifyArgs_mono) simp
  ultimately have "UnifyArgs (max n1 n2) (a # as) (b # bs) oc env = Some (env', True)"
    by simp
  with len show ?case by auto
qed

lemma Unify_unbound_Variable:
  assumes "Lookup env w = None" and "\<forall>v. t \<noteq> Variable v"  and "Resolve env t = Some t"
  shows "Unify (Suc n) (Variable w) t oc env =
           (if oc then (case Contains n t w env of
                          None \<Rightarrow> None
                        | Some True \<Rightarrow> Some (env, False)
                        | Some False \<Rightarrow> Some (Bind env w t, True))
            else Some (Bind env w t, True))"
  using assms by (simp add: Resolve_Variable)

lemma Compound_Unify_Variable:
  assumes R: "Resolve env t = Some (Variable w)"
  shows "Unify_returns (Compound f args) t oc env (env', ok) \<longleftrightarrow>
           (if oc then (\<exists>b. Contains_returns (Compound f args) w env b \<and> ok = (\<not> b)
                            \<and> env' = (if b then env else Bind env w (Compound f args)))
            else ok \<and> env' = Bind env w (Compound f args))"
proof -
  have w: "Lookup env w = None" using R by (rule Resolve_unbound) simp
  have step: "Unify (Suc (Suc n)) (Compound f args) t oc env =
           (if oc then (case Contains n (Compound f args) w env of
                          None \<Rightarrow> None
                        | Some True \<Rightarrow> Some (env, False)
                        | Some False \<Rightarrow> Some (Bind env w (Compound f args), True))
            else Some (Bind env w (Compound f args), True))" for n
    using Unify_unbound_Variable[OF w, of "Compound f args" n oc] by (simp add: R)
  show ?thesis
  proof
    assume "Unify_returns (Compound f args) t oc env (env', ok)"
    then obtain n where n: "Unify n (Compound f args) t oc env = Some (env', ok)"
      unfolding Unify_returns_def by blast
    then obtain k where "n = Suc (Suc k)"
      by (cases n; cases "n - 1") (auto simp: R)
    with n step[of k] show
      "if oc then (\<exists>b. Contains_returns (Compound f args) w env b \<and> ok = (\<not> b)
                            \<and> env' = (if b then env else Bind env w (Compound f args)))
            else ok \<and> env' = Bind env w (Compound f args)"
      unfolding Contains_returns_def
      by (auto split: if_splits option.splits bool.splits)
  next
    assume a: "if oc then (\<exists>b. Contains_returns (Compound f args) w env b \<and> ok = (\<not> b)
                            \<and> env' = (if b then env else Bind env w (Compound f args)))
            else ok \<and> env' = Bind env w (Compound f args)"
    show "Unify_returns (Compound f args) t oc env (env', ok)"
    proof (cases oc)
      case False
      have "Unify (Suc (Suc 0)) (Compound f args) t oc env = Some (env', ok)"
        unfolding step[of 0] using a False by simp
      then show ?thesis unfolding Unify_returns_def by (rule exI)
    next
      case True
      with a obtain b n where "Contains n (Compound f args) w env = Some b"
        and "ok = (\<not> b)" and "env' = (if b then env else Bind env w (Compound f args))"
        unfolding Contains_returns_def by auto
      with True step[of n] have "Unify (Suc (Suc n)) (Compound f args) t oc env = Some (env', ok)"
        by (cases b) auto
      then show ?thesis unfolding Unify_returns_def by (rule exI)
    qed
  qed
qed

lemma Compound_Unify_Compound:
  assumes R: "Resolve env t = Some (Compound g targs)"
  shows "Unify_returns (Compound f args) t oc env (env', True) \<longleftrightarrow>
           f = g \<and> length args = length targs \<and> unify_pairwise args targs oc env env'"
proof
  assume "Unify_returns (Compound f args) t oc env (env', True)"
  then obtain n where n: "Unify n (Compound f args) t oc env = Some (env', True)"
    unfolding Unify_returns_def by blast
  then obtain k where k: "n = Suc k" by (cases n) auto
  from n have "f = g" and len: "length args = length targs"
    and "UnifyArgs k args targs oc env = Some (env', True)"
    unfolding k by (auto simp: R split: if_splits)
  then show "f = g \<and> length args = length targs \<and> unify_pairwise args targs oc env env'"
    using UnifyArgs_pairwise by blast
next
  assume a: "f = g \<and> length args = length targs \<and> unify_pairwise args targs oc env env'"
  then obtain n where "UnifyArgs n args targs oc env = Some (env', True)"
    using pairwise_UnifyArgs by blast
  with a have "Unify (Suc n) (Compound f args) t oc env = Some (env', True)"
    by (simp add: R)
  then show "Unify_returns (Compound f args) t oc env (env', True)"
    unfolding Unify_returns_def by blast
qed

lemma Compound_Unify_mismatch:
  assumes R: "Resolve env t = Some r"
    and "\<forall>w. r \<noteq> Variable w"
    and "\<forall>targs. r = Compound f targs \<longrightarrow> length args \<noteq> length targs"
  shows "Unify (Suc n) (Compound f args) t oc env = Some (env, False)"
  using assms by (cases r) (auto simp: R)

text \<open>
  C1 (as amended). Let \<open>t\<close> resolve to \<open>r\<close> in the environment. Unifying the compound
  \<open>f(args)\<close> with \<open>t\<close> succeeds exactly when \<open>r\<close> is a variable that may be bound to the
  compound (with the occurs check on, the variable must not occur in the compound), in which
  case the resulting environment binds that variable to the compound, or \<open>r\<close> is a
  compound with the same functor and as many arguments whose arguments unify pairwise from left
  to right, threading the environment. When \<open>r\<close> is an atom, a number, or a compound with
  another functor or another number of arguments, the call returns false with the environment
  unchanged; no result of the call is an error.
\<close>

theorem Compound_Unify_succeeds_iff:
  assumes "Resolve env t = Some r"
  shows "(Unify_returns (Compound f args) t occursCheck env (env', True) \<longleftrightarrow>
            (case r of
               Variable w \<Rightarrow>
                 env' = Bind env w (Compound f args) \<and>
                 (occursCheck \<longrightarrow> Contains_returns (Compound f args) w env False)
             | Compound g targs \<Rightarrow>
                 f = g \<and> length args = length targs \<and>
                 unify_pairwise args targs occursCheck env env'
             | _ \<Rightarrow> False))
       \<and> ((\<forall>w. r \<noteq> Variable w) \<and>
            (\<forall>targs. r = Compound f targs \<longrightarrow> length args \<noteq> length targs) \<longrightarrow>
            Unify_returns (Compound f args) t occursCheck env (env, False))"
proof (intro conjI impI)
  assume "(\<forall>w. r \<noteq> Variable w) \<and>
          (\<forall>targs. r = Compound f targs \<longrightarrow> length args \<noteq> length targs)"
  then have "Unify (Suc 0) (Compound f args) t occursCheck env = Some (env, False)"
    using Compound_Unify_mismatch[OF assms] by blast
  then show "Unify_returns (Compound f args) t occursCheck env (env, False)"
    unfolding Unify_returns_def by blast
next
  have fail: "\<not> Unify_returns (Compound f args) t occursCheck env (env', True)"
    if "\<forall>w. r \<noteq> Variable w" and "\<forall>g targs. r \<noteq> Compound g targs"
  proof
    assume "Unify_returns (Compound f args) t occursCheck env (env', True)"
    then obtain n where n: "Unify n (Compound f args) t occursCheck env = Some (env', True)"
      unfolding Unify_returns_def by blast
    then obtain k where "n = Suc k" by (cases n) auto
    with n that assms show False by (cases r) auto
  qed
  show "Unify_returns (Compound f args) t occursCheck env (env', True) \<longleftrightarrow>
            (case r of
               Variable w \<Rightarrow>
                 env' = Bind env w (Compound f args) \<and>
                 (occursCheck \<longrightarrow> Contains_returns (Compound f args) w env False)
             | Compound g targs \<Rightarrow>
                 f = g \<and> length args = length targs \<and>
                 unify_pairwise args targs occursCheck env env'
             | _ \<Rightarrow> False)"
  proof (cases r)
    case (Variable w)
    with assms have "Resolve env t = Some (Variable w)" by simp
    from Compound_Unify_Variable[OF this, of f args occursCheck env' True]
    show ?thesis unfolding Variable by auto
  next
    case (Compound g targs)
    with assms have "Resolve env t = Some (Compound g targs)" by simp
    from Compound_Unify_Compound[OF this] show ?thesis unfolding Compound by simp
  qed (use fail in simp_all)
qed

lemma Unify_returnsI: "Unify n t1 t2 oc env = Some res \<Longrightarrow> Unify_returns t1 t2 oc env res"
  unfolding Unify_returns_def by blast

theorem Compound_Unify_succeeds_iff_witness:
  "Resolve [] (Compound ''f'' [Atom ''b'', Variable 1]) = Some (Compound ''f'' [Atom ''b'', Variable 1])
   \<and> Unify_returns (Compound ''f'' [Variable 0, Atom ''a'']) (Compound ''f'' [Atom ''b'', Variable 1])
         False [] ([(1, Atom ''a''), (0, Atom ''b'')], True)
   \<and> unify_pairwise [Variable 0, Atom ''a''] [Atom ''b'', Variable 1]
         False [] [(1, Atom ''a''), (0, Atom ''b'')]
   \<and> Resolve [] (Atom ''f'') = Some (Atom ''f'')
   \<and> Unify_returns (Compound ''f'' [Variable 0, Atom ''a'']) (Atom ''f'') False [] ([], False)"
proof -
  have R: "Resolve [] (Compound ''f'' [Atom ''b'', Variable 1]) = Some (Compound ''f'' [Atom ''b'', Variable 1])"
    by simp
  have "Unify (Suc (Suc (Suc (Suc 0)))) (Compound ''f'' [Variable 0, Atom ''a''])
          (Compound ''f'' [Atom ''b'', Variable 1]) False []
        = Some ([(1, Atom ''a''), (0, Atom ''b'')], True)"
    by (simp add: Resolve_Variable Lookup_def Bind_def)
  then have U: "Unify_returns (Compound ''f'' [Variable 0, Atom ''a''])
      (Compound ''f'' [Atom ''b'', Variable 1]) False [] ([(1, Atom ''a''), (0, Atom ''b'')], True)"
    by (rule Unify_returnsI)
  have R': "Resolve [] (Atom ''f'') = Some (Atom ''f'')" by simp
  from Compound_Unify_succeeds_iff[OF R, of "''f''" "[Variable 0, Atom ''a'']" False
      "[(1, Atom ''a''), (0, Atom ''b'')]"] U
  have P: "unify_pairwise [Variable 0, Atom ''a''] [Atom ''b'', Variable 1]
         False [] [(1, Atom ''a''), (0, Atom ''b'')]" by simp
  from Compound_Unify_succeeds_iff[OF R', of "''f''" "[Variable 0, Atom ''a'']" False "[]"]
  have M: "Unify_returns (Compound ''f'' [Variable 0, Atom ''a'']) (Atom ''f'') False [] ([], False)"
    by simp
  show ?thesis by (intro conjI R U P R' M)
qed

lemma Unify_returns_unique:
  assumes "Unify_returns t1 t2 oc env r1" and "Unify_returns t1 t2 oc env r2"
  shows "r1 = r2"
proof -
  from assms obtain n1 n2 where n1: "Unify n1 t1 t2 oc env = Some r1"
    and n2: "Unify n2 t1 t2 oc env = Some r2"
    unfolding Unify_returns_def by blast
  have "Unify (max n1 n2) t1 t2 oc env = Some r1" using n1 by (rule Unify_mono) simp
  moreover have "Unify (max n1 n2) t1 t2 oc env = Some r2" using n2 by (rule Unify_mono) simp
  ultimately have "Some r1 = Some r2" by (rule trans[OF sym])
  then show ?thesis by simp
qed

text \<open>
  C1 as stated fails with the occurs check on: \<open>X\<close> resolves to a variable, yet unifying
  \<open>f(X)\<close> with \<open>X\<close> returns false and binds nothing.
\<close>

theorem Compound_Unify_occurs_check_counterexample:
  "Resolve [] (Variable 0) = Some (Variable 0)
   \<and> Unify (Suc (Suc (Suc (Suc 0)))) (Compound ''f'' [Variable 0]) (Variable 0) True []
        = Some ([], False)
   \<and> \<not> Unify_returns (Compound ''f'' [Variable 0]) (Variable 0) True []
         (Bind [] 0 (Compound ''f'' [Variable 0]), True)"
proof -
  have R: "Resolve [] (Variable 0) = Some (Variable 0)"
    by (simp add: Resolve_Variable Lookup_def)
  have U: "Unify (Suc (Suc (Suc (Suc 0)))) (Compound ''f'' [Variable 0]) (Variable 0) True []
        = Some ([], False)"
    by (simp add: Resolve_Variable Lookup_def)
  then have F: "Unify_returns (Compound ''f'' [Variable 0]) (Variable 0) True [] ([], False)"
    by (rule Unify_returnsI)
  have N: "\<not> Unify_returns (Compound ''f'' [Variable 0]) (Variable 0) True []
         (Bind [] 0 (Compound ''f'' [Variable 0]), True)"
  proof
    assume "Unify_returns (Compound ''f'' [Variable 0]) (Variable 0) True []
         (Bind [] 0 (Compound ''f'' [Variable 0]), True)"
    from Unify_returns_unique[OF this F] show False by simp
  qed
  show ?thesis by (intro conjI R U N)
qed

subsection \<open>The operator table\<close>

lemma Search_loop_correct:
  assumes mono: "\<And>a b. a \<le> b \<Longrightarrow> b < n \<Longrightarrow> f a \<Longrightarrow> f b"
  shows "lo \<le> hi \<Longrightarrow> hi \<le> n \<Longrightarrow> (\<forall>k<lo. \<not> f k) \<Longrightarrow> (\<forall>k. hi \<le> k \<and> k < n \<longrightarrow> f k) \<Longrightarrow>
         Search_loop f lo hi \<le> n \<and> (\<forall>k<Search_loop f lo hi. \<not> f k)
         \<and> (\<forall>k. Search_loop f lo hi \<le> k \<and> k < n \<longrightarrow> f k)"
proof (induction "hi - lo" arbitrary: lo hi rule: less_induct)
  case less
  show ?case
  proof (cases "lo < hi")
    case False
    then have "Search_loop f lo hi = lo" by (subst Search_loop.simps) simp
    with False less.prems show ?thesis by simp
  next
    case True
    define h where "h = (lo + hi) div 2"
    have h: "lo \<le> h" "h < hi" using True by (auto simp: h_def)
    show ?thesis
    proof (cases "f h")
      case fh: True
      have up: "\<forall>k. h \<le> k \<and> k < n \<longrightarrow> f k" using fh mono by blast
      have eq: "Search_loop f lo hi = Search_loop f lo h"
        using True fh by (simp add: Search_loop.simps[of f lo hi] h_def Let_def)
      have "h - lo < hi - lo" using h by simp
      from less.hyps[OF this h(1) _ less.prems(3) up] h less.prems(2)
      show ?thesis unfolding eq by simp
    next
      case fh: False
      have low: "\<forall>k<h + 1. \<not> f k"
      proof (intro allI impI)
        fix k assume "k < h + 1"
        then have "k \<le> h" by simp
        moreover have "h < n" using h less.prems(2) by simp
        ultimately show "\<not> f k" using mono fh by blast
      qed
      have eq: "Search_loop f lo hi = Search_loop f (h + 1) hi"
        using True fh by (simp add: Search_loop.simps[of f lo hi] h_def Let_def)
      have "hi - (h + 1) < hi - lo" using h by simp
      from less.hyps[OF this _ less.prems(2) low less.prems(4)] h
      show ?thesis unfolding eq by simp
    qed
  qed
qed

lemma Op_insert_ordered:
  assumes "ordered ops"
  shows "ordered (Op_insert p t n ops)"
proof -
  define f where "f = (\<lambda>i. p \<le> Precedence (ops ! i))"
  define r where "r = Search (length ops) f"
  have srt: "sorted (map Precedence ops)" using assms unfolding ordered_def .
  have mono: "f b" if "a \<le> b" "b < length ops" "f a" for a b
  proof -
    have "map Precedence ops ! a \<le> map Precedence ops ! b"
      using srt that(1,2) by (intro sorted_nth_mono) simp_all
    then have "Precedence (ops ! a) \<le> Precedence (ops ! b)" using that(1,2) by simp
    with that(3) show ?thesis unfolding f_def by simp
  qed
  have S: "r \<le> length ops \<and> (\<forall>k<r. \<not> f k) \<and> (\<forall>k. r \<le> k \<and> k < length ops \<longrightarrow> f k)"
    unfolding r_def Search_def
  proof (rule Search_loop_correct[of "length ops" f 0 "length ops"])
    show "f b" if "a \<le> b" "b < length ops" "f a" for a b using that by (rule mono)
  qed auto
  have lo: "Precedence x \<le> p" if "x \<in> set (take r ops)" for x
  proof -
    from that obtain k where "k < r" "k < length ops" "x = ops ! k"
      by (auto simp: in_set_conv_nth)
    with S show ?thesis unfolding f_def by auto
  qed
  have hi: "p \<le> Precedence x" if "x \<in> set (drop r ops)" for x
  proof -
    from that obtain i where i: "i < length (drop r ops)" "drop r ops ! i = x"
      unfolding in_set_conv_nth by blast
    then have "r + i < length ops" "x = ops ! (r + i)" using S by simp_all
    with S show ?thesis unfolding f_def by auto
  qed
  have s1: "sorted (map Precedence (take r ops))"
    using srt by (simp add: take_map[symmetric] sorted_wrt_take)
  have s2: "sorted (map Precedence (drop r ops))"
    using srt by (simp add: drop_map[symmetric] sorted_wrt_drop)
  have "sorted (map Precedence (take r ops) @ [p] @ map Precedence (drop r ops))"
    unfolding sorted_append using s1 s2 lo hi by (auto intro: order_trans)
  then have "sorted (map Precedence (take r ops @ [\<lparr>Precedence = p, Type = t, Name = n\<rparr>] @ drop r ops))"
    by simp
  then show ?thesis unfolding ordered_def Op_insert_def Let_def r_def f_def .
qed

lemma set_insert_at: "set (take i xs @ [x] @ drop i xs) = insert x (set xs)"
proof -
  have "set xs = set (take i xs @ drop i xs)" by simp
  also have "\<dots> = set (take i xs) \<union> set (drop i xs)" by (rule set_append)
  finally show ?thesis by auto
qed

lemma Op_insert_set:
  "set (Op_insert p t n ops) = insert \<lparr>Precedence = p, Type = t, Name = n\<rparr> (set ops)"
  unfolding Op_insert_def Let_def by (rule set_insert_at)


lemma Op_loop_no_match:
  "\<forall>i\<in>set is. op_key (arr ! i) \<noteq> (t, n) \<Longrightarrow> Op_loop p t n is arr len = LoopDone arr len"
  by (induction "is") (auto simp: op_key_def Let_def)

lemma filter_key_split:
  assumes uniq: "key_unique ops" and k: "k < length ops" and m: "op_key (ops ! k) = (t, n)"
  shows "filter (\<lambda>oper. op_key oper \<noteq> (t, n)) ops = take k ops @ drop (Suc k) ops"
    and "\<forall>x\<in>set (drop (Suc k) ops). op_key x \<noteq> (t, n)"
proof -
  have split: "ops = take k ops @ ops ! k # drop (Suc k) ops"
    using k by (rule id_take_nth_drop)
  have d: "distinct (map op_key (take k ops) @ op_key (ops ! k) # map op_key (drop (Suc k) ops))"
    using uniq unfolding key_unique_def by (subst (asm) split) simp
  have a: "\<forall>x\<in>set (take k ops). op_key x \<noteq> (t, n)"
    using d m by force
  show b: "\<forall>x\<in>set (drop (Suc k) ops). op_key x \<noteq> (t, n)"
    using d m by force
  have "filter (\<lambda>oper. op_key oper \<noteq> (t, n)) ops
      = filter (\<lambda>oper. op_key oper \<noteq> (t, n)) (take k ops @ ops ! k # drop (Suc k) ops)"
    using split by simp
  also have "\<dots> = take k ops @ drop (Suc k) ops"
    using a b m by (simp add: filter_id_conv)
  finally show "filter (\<lambda>oper. op_key oper \<noteq> (t, n)) ops = take k ops @ drop (Suc k) ops" .
qed

lemma Op_loop_upt:
  assumes uniq: "key_unique ops" and nz: "(t, n) \<noteq> ([], [])"
  shows "k \<le> length ops \<Longrightarrow> \<forall>j<k. op_key (ops ! j) \<noteq> (t, n) \<Longrightarrow>
     Op_loop p t n [k..<length ops] ops (length ops) =
       (if \<exists>oper\<in>set ops. op_key oper = (t, n)
        then (if p = 0 then LoopReturn else LoopDone)
               (filter (\<lambda>oper. op_key oper \<noteq> (t, n)) ops @ [zero_operator]) (length ops - 1)
        else LoopDone ops (length ops))"
proof (induction "length ops - k" arbitrary: k)
  case 0
  then have "k = length ops" by simp
  moreover have "\<not> (\<exists>oper\<in>set ops. op_key oper = (t, n))"
    using 0(3) \<open>k = length ops\<close> by (auto simp: in_set_conv_nth)
  ultimately show ?case by simp
next
  case (Suc d)
  then have k: "k < length ops" by simp
  have upt: "[k..<length ops] = k # [Suc k..<length ops]" using k by (rule upt_conv_Cons)
  show ?case
  proof (cases "op_key (ops ! k) = (t, n)")
    case False
    have "\<forall>j<Suc k. op_key (ops ! j) \<noteq> (t, n)"
      using Suc.prems(2) False by (auto simp: less_Suc_eq)
    moreover have "d = length ops - Suc k" using Suc(2) by simp
    ultimately have "Op_loop p t n [Suc k..<length ops] ops (length ops) =
       (if \<exists>oper\<in>set ops. op_key oper = (t, n)
        then (if p = 0 then LoopReturn else LoopDone)
               (filter (\<lambda>oper. op_key oper \<noteq> (t, n)) ops @ [zero_operator]) (length ops - 1)
        else LoopDone ops (length ops))"
      using Suc(1)[of "Suc k"] k by simp
    moreover have "Op_loop p t n [k..<length ops] ops (length ops)
        = Op_loop p t n [Suc k..<length ops] ops (length ops)"
      unfolding upt using False by (auto simp: op_key_def)
    ultimately show ?thesis by simp
  next
    case True
    note fs = filter_key_split[OF uniq k True]
    have "ops ! k \<in> set ops" using k by (rule nth_mem)
    with True have ex: "\<exists>oper\<in>set ops. op_key oper = (t, n)" by blast
    define arr' where "arr' = take k ops @ drop (Suc k) ops @ [zero_operator]"
    have rm: "remove_at k ops (length ops) = arr'"
      unfolding remove_at_def arr'_def by simp
    have arr': "arr' = filter (\<lambda>oper. op_key oper \<noteq> (t, n)) ops @ [zero_operator]"
      unfolding arr'_def fs(1) by simp
    have step: "Op_loop p t n [k..<length ops] ops (length ops) =
        (if p = 0 then LoopReturn arr' (length ops - 1)
         else Op_loop p t n [Suc k..<length ops] arr' (length ops - 1))"
      unfolding upt using True k rm by (simp add: op_key_def Let_def)
    have "\<forall>i\<in>set [Suc k..<length ops]. op_key (arr' ! i) \<noteq> (t, n)"
    proof
      fix i assume "i \<in> set [Suc k..<length ops]"
      then have i: "k < i" "i < length ops" by simp_all
      have len: "length (take k ops) = k" using k by simp
      have "arr' ! i = (drop (Suc k) ops @ [zero_operator]) ! (i - k)"
        unfolding arr'_def using i len by (simp add: nth_append)
      moreover have "i - k < length (drop (Suc k) ops @ [zero_operator])" using i by simp
      ultimately have "arr' ! i \<in> set (drop (Suc k) ops @ [zero_operator])"
        by (metis nth_mem)
      then show "op_key (arr' ! i) \<noteq> (t, n)"
        using fs(2) nz by (auto simp: zero_operator_def op_key_def)
    qed
    then have "Op_loop p t n [Suc k..<length ops] arr' (length ops - 1) = LoopDone arr' (length ops - 1)"
      by (rule Op_loop_no_match)
    with step ex show ?thesis unfolding arr' by simp
  qed
qed


lemma Op_loop_result:
  assumes uniq: "key_unique ops" and nz: "(t, n) \<noteq> ([], [])"
  defines "rest \<equiv> filter (\<lambda>oper. op_key oper \<noteq> (t, n)) ops"
  shows "\<exists>arr len. take len arr = rest \<and>
           Op_loop p t n [0..<length ops] ops (length ops) =
             (if p = 0 \<and> (\<exists>oper\<in>set ops. op_key oper = (t, n))
              then LoopReturn arr len else LoopDone arr len)"
proof (cases "\<exists>oper\<in>set ops. op_key oper = (t, n)")
  case False
  then have "rest = ops" unfolding rest_def by (simp add: filter_id_conv)
  moreover have "Op_loop p t n [0..<length ops] ops (length ops) = LoopDone ops (length ops)"
    using Op_loop_upt[OF uniq nz, of 0 p] False by simp
  ultimately show ?thesis using False by (intro exI[of _ ops] exI[of _ "length ops"]) simp
next
  case True
  then obtain k where k: "k < length ops" and m: "op_key (ops ! k) = (t, n)"
    by (auto simp: in_set_conv_nth)
  have "rest = take k ops @ drop (Suc k) ops"
    unfolding rest_def using uniq k m by (rule filter_key_split(1))
  then have "length rest = length ops - 1" using k by simp
  then have "take (length ops - 1) (rest @ [zero_operator]) = rest" by simp
  moreover have "Op_loop p t n [0..<length ops] ops (length ops) =
      (if p = 0 then LoopReturn else LoopDone) (rest @ [zero_operator]) (length ops - 1)"
    using Op_loop_upt[OF uniq nz, of 0 p] True unfolding rest_def by simp
  ultimately show ?thesis using True
    by (intro exI[of _ "rest @ [zero_operator]"] exI[of _ "length ops - 1"]) simp
qed

lemma key_unique_filter: "key_unique ops \<Longrightarrow> key_unique (filter P ops)"
  unfolding key_unique_def by (rule distinct_map_filter)

lemma ordered_filter: "ordered ops \<Longrightarrow> ordered (filter P ops)"
  unfolding ordered_def by (rule sorted_filter)

lemma Op_insert_key_unique:
  assumes "key_unique ops" and "\<forall>oper\<in>set ops. op_key oper \<noteq> (t, n)"
  shows "key_unique (Op_insert p t n ops)"
proof -
  define i where "i = Search (length ops) (\<lambda>i. p \<le> Precedence (ops ! i))"
  have "map op_key ops = map op_key (take i ops) @ map op_key (drop i ops)"
    by (metis append_take_drop_id map_append)
  then have D: "distinct (map op_key (take i ops) @ map op_key (drop i ops))"
    using assms(1) unfolding key_unique_def by simp
  have nin: "(t, n) \<notin> op_key ` set ops" using assms(2) by force
  have sub: "set (take i ops) \<subseteq> set ops" "set (drop i ops) \<subseteq> set ops"
    by (rule set_take_subset, rule set_drop_subset)
  have nk: "op_key \<lparr>Precedence = p, Type = t, Name = n\<rparr> = (t, n)" by (simp add: op_key_def)
  have "distinct (map op_key (take i ops @ [\<lparr>Precedence = p, Type = t, Name = n\<rparr>] @ drop i ops))"
    using D nin sub nk by auto
  then show ?thesis unfolding key_unique_def Op_insert_def Let_def i_def .
qed

text \<open>
  C7 (as amended). The loop of \<^verbatim>\<open>Engine.Op\<close> compares the type atom and the name, so
  the pair that is unique in the table is (specifier, name). For a table that is ordered by
  precedence and has unique (specifier, name) pairs, a call of \<^verbatim>\<open>op/3\<close> whose arguments
  resolve to an integer and two atoms (not both empty) succeeds; an entry with the same specifier
  and name is removed; the new entry is inserted, except that nothing is inserted when the
  precedence is 0 and an entry was removed; and the new table is again ordered by precedence
  with unique (specifier, name) pairs.
\<close>

theorem Op_replaces:
  assumes "Resolve env precedence = Some (Integer p)"
    and "Resolve env typ = Some (Atom t)"
    and "Resolve env name = Some (Atom n)"
    and "(t, n) \<noteq> ([], [])"
    and "key_unique ops"
    and "ordered ops"
  shows "\<exists>ops'. Op env precedence typ name ops = Some (Continue, ops') \<and>
           key_unique ops' \<and> ordered ops' \<and>
           set ops' = {oper \<in> set ops. op_key oper \<noteq> (t, n)} \<union>
             (if p = 0 \<and> (\<exists>oper\<in>set ops. op_key oper = (t, n)) then {}
              else {\<lparr>Precedence = p, Type = t, Name = n\<rparr>})"
proof -
  define rest where "rest = filter (\<lambda>oper. op_key oper \<noteq> (t, n)) ops"
  from Op_loop_result[OF assms(5,4), of p] obtain arr len where
    tk: "take len arr = rest" and
    loop: "Op_loop p t n [0..<length ops] ops (length ops) =
             (if p = 0 \<and> (\<exists>oper\<in>set ops. op_key oper = (t, n))
              then LoopReturn arr len else LoopDone arr len)"
    unfolding rest_def by blast
  have ku: "key_unique rest" unfolding rest_def using assms(5) by (rule key_unique_filter)
  have ord: "ordered rest" unfolding rest_def using assms(6) by (rule ordered_filter)
  have nk: "\<forall>oper\<in>set rest. op_key oper \<noteq> (t, n)" unfolding rest_def by simp
  have sr: "set rest = {oper \<in> set ops. op_key oper \<noteq> (t, n)}" unfolding rest_def by simp
  show ?thesis
  proof (cases "p = 0 \<and> (\<exists>oper\<in>set ops. op_key oper = (t, n))")
    case True
    with loop have "Op env precedence typ name ops = Some (Continue, rest)"
      unfolding Op_def by (simp add: assms(1,2,3) tk)
    with True ku ord sr show ?thesis by simp
  next
    case False
    with loop have "Op env precedence typ name ops = Some (Continue, Op_insert p t n rest)"
      unfolding Op_def by (simp add: assms(1,2,3) tk)
    moreover have "key_unique (Op_insert p t n rest)" using ku nk by (rule Op_insert_key_unique)
    moreover have "ordered (Op_insert p t n rest)" using ord by (rule Op_insert_ordered)
    moreover have "set (Op_insert p t n rest) =
        {oper \<in> set ops. op_key oper \<noteq> (t, n)} \<union> {\<lparr>Precedence = p, Type = t, Name = n\<rparr>}"
      unfolding Op_insert_set sr by simp
    moreover have "(if p = 0 \<and> (\<exists>oper\<in>set ops. op_key oper = (t, n)) then {}
              else {\<lparr>Precedence = p, Type = t, Name = n\<rparr>}) = {\<lparr>Precedence = p, Type = t, Name = n\<rparr>}"
      using False by (simp only: if_False)
    ultimately show ?thesis by (intro exI[of _ "Op_insert p t n rest"]) (simp only: simp_thms)
  qed
qed

theorem Op_replaces_witness:
  "Resolve [] (Integer 200) = Some (Integer 200)
   \<and> Resolve [] (Atom ''xfx'') = Some (Atom ''xfx'')
   \<and> Resolve [] (Atom ''='') = Some (Atom ''='')
   \<and> (''xfx'', ''='') \<noteq> ([], [])
   \<and> key_unique [\<lparr>Precedence = 100, Type = ''fy'', Name = ''-''\<rparr>,
                    \<lparr>Precedence = 700, Type = ''xfx'', Name = ''=''\<rparr>,
                    \<lparr>Precedence = 1200, Type = ''xfx'', Name = '':-''\<rparr>]
   \<and> ordered [\<lparr>Precedence = 100, Type = ''fy'', Name = ''-''\<rparr>,
                 \<lparr>Precedence = 700, Type = ''xfx'', Name = ''=''\<rparr>,
                 \<lparr>Precedence = 1200, Type = ''xfx'', Name = '':-''\<rparr>]
   \<and> (\<exists>ops'. Op [] (Integer 200) (Atom ''xfx'') (Atom ''='')
                [\<lparr>Precedence = 100, Type = ''fy'', Name = ''-''\<rparr>,
                 \<lparr>Precedence = 700, Type = ''xfx'', Name = ''=''\<rparr>,
                 \<lparr>Precedence = 1200, Type = ''xfx'', Name = '':-''\<rparr>] = Some (Continue, ops')
          \<and> key_unique ops' \<and> ordered ops'
          \<and> set ops' = {\<lparr>Precedence = 100, Type = ''fy'', Name = ''-''\<rparr>,
                          \<lparr>Precedence = 200, Type = ''xfx'', Name = ''=''\<rparr>,
                          \<lparr>Precedence = 1200, Type = ''xfx'', Name = '':-''\<rparr>})"
proof -
  let ?ops = "[\<lparr>Precedence = 100, Type = ''fy'', Name = ''-''\<rparr>,
               \<lparr>Precedence = 700, Type = ''xfx'', Name = ''=''\<rparr>,
               \<lparr>Precedence = 1200, Type = ''xfx'', Name = '':-''\<rparr>]"
  have h1: "Resolve [] (Integer 200) = Some (Integer 200)" by simp
  have h2: "Resolve [] (Atom ''xfx'') = Some (Atom ''xfx'')" by simp
  have h3: "Resolve [] (Atom ''='') = Some (Atom ''='')" by simp
  have h4: "(''xfx'', ''='') \<noteq> ([], [])" by simp
  have h5: "key_unique ?ops" by (simp add: key_unique_def op_key_def)
  have h6: "ordered ?ops" by (simp add: ordered_def)
  have s: "{oper \<in> set ?ops. op_key oper \<noteq> (''xfx'', ''='')} \<union>
             (if (200 :: int) = 0 \<and> (\<exists>oper\<in>set ?ops. op_key oper = (''xfx'', ''='')) then {}
              else {\<lparr>Precedence = 200, Type = ''xfx'', Name = ''=''\<rparr>})
         = {\<lparr>Precedence = 100, Type = ''fy'', Name = ''-''\<rparr>,
            \<lparr>Precedence = 200, Type = ''xfx'', Name = ''=''\<rparr>,
            \<lparr>Precedence = 1200, Type = ''xfx'', Name = '':-''\<rparr>}"
    by (auto simp: op_key_def)
  from Op_replaces[OF h1 h2 h3 h4 h5 h6] have
    "\<exists>ops'. Op [] (Integer 200) (Atom ''xfx'') (Atom ''='') ?ops = Some (Continue, ops')
          \<and> key_unique ops' \<and> ordered ops'
          \<and> set ops' = {\<lparr>Precedence = 100, Type = ''fy'', Name = ''-''\<rparr>,
                          \<lparr>Precedence = 200, Type = ''xfx'', Name = ''=''\<rparr>,
                          \<lparr>Precedence = 1200, Type = ''xfx'', Name = '':-''\<rparr>}"
    unfolding s .
  with h1 h2 h3 h4 h5 h6 show ?thesis by (intro conjI)
qed

text \<open>
  C7 as stated fails: \<open>xfx\<close> and \<open>xfy\<close> are both infix, yet declaring \<open>=\<close> as
  \<open>xfy\<close> in a table that holds it as \<open>xfx\<close> keeps both entries.
\<close>

theorem Op_specifier_class_counterexample:
  "class_unique [\<lparr>Precedence = 700, Type = ''xfx'', Name = ''=''\<rparr>]
   \<and> Op [] (Integer 700) (Atom ''xfy'') (Atom ''='') [\<lparr>Precedence = 700, Type = ''xfx'', Name = ''=''\<rparr>]
       = Some (Continue, [\<lparr>Precedence = 700, Type = ''xfy'', Name = ''=''\<rparr>,
                          \<lparr>Precedence = 700, Type = ''xfx'', Name = ''=''\<rparr>])
   \<and> \<not> class_unique [\<lparr>Precedence = 700, Type = ''xfy'', Name = ''=''\<rparr>,
                        \<lparr>Precedence = 700, Type = ''xfx'', Name = ''=''\<rparr>]"
  by (simp add: class_unique_def class_of_def Op_def Op_insert_def Search_def
      Search_loop.simps remove_at_def Let_def)

subsection \<open>\<^verbatim>\<open>functor/3\<close> on an unbound term\<close>

lemma Unify_unbound_Variable_chain:
  assumes "Resolve env (Variable v) = Some (Variable w)"
    and "\<forall>u. t \<noteq> Variable u" and "Resolve env t = Some t"
  shows "Unify (Suc n) (Variable v) t False env = Some (Bind env w t, True)"
  using assms by auto

lemma Lookup_in_keys: "Lookup env x = Some y \<Longrightarrow> x \<in> fst ` set env"
  unfolding Lookup_def by (auto dest!: map_of_SomeD intro: rev_image_eqI)

lemma Lookup_in_use: "Lookup (refs h) x = Some y \<Longrightarrow> x \<in> in_use h \<and> vars_of y \<subseteq> in_use h"
  unfolding Lookup_def in_use_def by (auto dest!: map_of_SomeD intro: rev_image_eqI)

lemma well_formed_unbound:
  assumes "well_formed h" and "next_var h \<le> w"
  shows "Lookup (refs h) w = None"
proof (cases "Lookup (refs h) w")
  case (Some y)
  then have "w \<in> in_use h" by (simp add: Lookup_in_use)
  with assms show ?thesis by (auto simp: well_formed_def)
qed simp

lemma vars_of_Resolve_flat:
  assumes "Resolve env t = Some r" and "\<forall>f as. r \<noteq> Compound f as"
  shows "vars_of t \<subseteq> fst ` set env \<union> vars_of r"
proof (cases t)
  case (Variable x)
  show ?thesis
  proof (cases "Lookup env x")
    case None
    with assms(1) Variable show ?thesis by (simp add: Resolve_Variable)
  next
    case (Some y)
    then show ?thesis unfolding Variable by (simp add: Lookup_in_keys)
  qed
qed (use assms in auto)

lemma in_use_Bind:
  "in_use (h\<lparr>next_var := k, refs := Bind (refs h) v t\<rparr>) = insert v (vars_of t \<union> in_use h)"
  by (auto simp: in_use_def Bind_def)

lemma well_formed_Bind:
  assumes "well_formed h" and "v < next_var h" and "\<forall>w \<in> vars_of t. w < next_var h + k"
  shows "well_formed (h\<lparr>next_var := next_var h + k, refs := Bind (refs h) v t\<rparr>)"
proof -
  have "x < next_var h + k"
    if "x \<in> insert v (vars_of t \<union> in_use h)" for x
  proof -
    from that consider "x = v" | "x \<in> vars_of t" | "x \<in> in_use h" by auto
    then show ?thesis
    proof cases
      case 1 with assms(2) show ?thesis by simp
    next
      case 2 with assms(3) show ?thesis by simp
    next
      case 3 with assms(1) have "x < next_var h" by (simp add: well_formed_def)
      then show ?thesis by simp
    qed
  qed
  then show ?thesis unfolding well_formed_def in_use_Bind by simp
qed

text \<open>
  C10. Let the term argument resolve to an unbound variable, the name argument to an atom and
  the arity argument to the integer \<open>N\<close>. For \<open>N = 0\<close> the call succeeds and binds the
  variable to the integer 0, the arity, and not to the name atom. For \<open>N \<ge> 1\<close> within what
  \<^verbatim>\<open>make\<close> grants it succeeds and binds the variable to a compound of that name with \<open>N\<close>
  variables taken from the counter as arguments; for a negative \<open>N\<close> and for an \<open>N\<close> beyond
  that limit it panics and binds nothing. On a well-formed store, with the unbound variable
  taken from the counter before, those \<open>N\<close> variables are fresh: they are distinct, unbound
  after the call, not in use in the store and absent from the three arguments; and the
  store is well formed again.
\<close>

theorem Functor_unbound_term:
  assumes "Resolve (refs h) term = Some (Variable v)"
    and "Resolve (refs h) name = Some (Atom a)"
    and "Resolve (refs h) arity = Some (Integer N)"
  shows "Functor (Suc n) max_len term name arity h =
           (if N = 0 then Some (Continue, h\<lparr>refs := Bind (refs h) v (Integer 0)\<rparr>)
            else if N < 0 \<or> makeslice_limit max_len < N then Some (Panic, h)
            else Some (Continue,
                   h\<lparr>next_var := next_var h + nat N,
                     refs := Bind (refs h) v (Compound a (fresh_vars h (nat N)))\<rparr>))
         \<and> (well_formed h \<and> v < next_var h \<longrightarrow>
              length (fresh_vars h (nat N)) = nat N
              \<and> distinct (fresh_vars h (nat N))
              \<and> (\<forall>w \<in> {next_var h..<next_var h + nat N}.
                    Variable w \<in> set (fresh_vars h (nat N))
                    \<and> w \<notin> in_use h
                    \<and> w \<notin> vars_of term \<union> vars_of name \<union> vars_of arity
                    \<and> Lookup (Bind (refs h) v (Compound a (fresh_vars h (nat N)))) w = None)
              \<and> well_formed (h\<lparr>next_var := next_var h + nat N,
                                refs := Bind (refs h) v (Compound a (fresh_vars h (nat N)))\<rparr>))"
proof (rule conjI)
  have v: "Resolve (refs h) (Variable v) = Some (Variable v)"
    using assms(1) by (rule Resolve_idem)
  show "Functor (Suc n) max_len term name arity h =
           (if N = 0 then Some (Continue, h\<lparr>refs := Bind (refs h) v (Integer 0)\<rparr>)
            else if N < 0 \<or> makeslice_limit max_len < N then Some (Panic, h)
            else Some (Continue,
                   h\<lparr>next_var := next_var h + nat N,
                     refs := Bind (refs h) v (Compound a (fresh_vars h (nat N)))\<rparr>))"
    unfolding Functor_def
    by (simp add: assms Unify_unbound_Variable_chain[OF v] Let_def fresh_vars_def
        del: Unify.simps)
next
  let ?new = "fresh_vars h (nat N)"
  let ?env = "Bind (refs h) v (Compound a ?new)"
  show "well_formed h \<and> v < next_var h \<longrightarrow>
          length ?new = nat N \<and> distinct ?new
          \<and> (\<forall>w \<in> {next_var h..<next_var h + nat N}.
                Variable w \<in> set ?new \<and> w \<notin> in_use h
                \<and> w \<notin> vars_of term \<union> vars_of name \<union> vars_of arity
                \<and> Lookup ?env w = None)
          \<and> well_formed (h\<lparr>next_var := next_var h + nat N, refs := ?env\<rparr>)"
  proof (intro impI, elim conjE)
    assume wf: "well_formed h" and vlt: "v < next_var h"
    have keys: "x < next_var h" if "x \<in> fst ` set (refs h)" for x
      using wf that by (auto simp: well_formed_def in_use_def)
    have args: "x < next_var h"
      if "x \<in> vars_of term \<union> vars_of name \<union> vars_of arity" for x
    proof -
      from vars_of_Resolve_flat[OF assms(1)] vars_of_Resolve_flat[OF assms(2)]
        vars_of_Resolve_flat[OF assms(3)] that
      have "x \<in> fst ` set (refs h) \<or> x = v" by auto
      with keys vlt show ?thesis by auto
    qed
    have len: "length ?new = nat N" by (simp add: fresh_vars_def)
    have dist: "distinct ?new" by (simp add: fresh_vars_def distinct_map inj_on_def)
    have each: "Variable w \<in> set ?new \<and> w \<notin> in_use h
                \<and> w \<notin> vars_of term \<union> vars_of name \<union> vars_of arity
                \<and> Lookup ?env w = None"
      if w: "w \<in> {next_var h..<next_var h + nat N}" for w
    proof (intro conjI)
      show "Variable w \<in> set ?new" using w by (simp add: fresh_vars_def)
      show "w \<notin> in_use h" using wf w by (auto simp: well_formed_def)
      show "w \<notin> vars_of term \<union> vars_of name \<union> vars_of arity" using args[of w] w by auto
      have "Lookup (refs h) w = None" using wf w by (simp add: well_formed_unbound)
      moreover have "w \<noteq> v" using w vlt by simp
      ultimately show "Lookup ?env w = None" by (simp add: Lookup_def Bind_def)
    qed
    have "\<forall>w \<in> vars_of (Compound a ?new). w < next_var h + nat N"
      by (auto simp: fresh_vars_def)
    with wf vlt have wf': "well_formed (h\<lparr>next_var := next_var h + nat N, refs := ?env\<rparr>)"
      by (rule well_formed_Bind)
    show "length ?new = nat N \<and> distinct ?new
          \<and> (\<forall>w \<in> {next_var h..<next_var h + nat N}.
                Variable w \<in> set ?new \<and> w \<notin> in_use h
                \<and> w \<notin> vars_of term \<union> vars_of name \<union> vars_of arity
                \<and> Lookup ?env w = None)
          \<and> well_formed (h\<lparr>next_var := next_var h + nat N, refs := ?env\<rparr>)"
      by (intro conjI ballI len dist each wf')
  qed
qed



theorem Functor_unbound_term_witness:
  "Resolve [] (Variable 0) = Some (Variable 0)
   \<and> Resolve [] (Atom ''foo'') = Some (Atom ''foo'')
   \<and> Resolve [] (Integer 0) = Some (Integer 0)
   \<and> Resolve [] (Integer 2) = Some (Integer 2)
   \<and> Resolve [] (Integer (2 ^ 62)) = Some (Integer (2 ^ 62))
   \<and> well_formed \<lparr>refs = [], next_var = 1\<rparr> \<and> (0 :: nat) < 1
   \<and> Functor (Suc 0) 1000 (Variable 0) (Atom ''foo'') (Integer 0) \<lparr>refs = [], next_var = 1\<rparr>
       = Some (Continue, \<lparr>refs = [(0, Integer 0)], next_var = 1\<rparr>)
   \<and> Functor (Suc 0) 1000 (Variable 0) (Atom ''foo'') (Integer 2) \<lparr>refs = [], next_var = 1\<rparr>
       = Some (Continue, \<lparr>refs = [(0, Compound ''foo'' [Variable 1, Variable 2])], next_var = 3\<rparr>)
   \<and> Functor (Suc 0) (2 ^ 63) (Variable 0) (Atom ''foo'') (Integer (2 ^ 62))
         \<lparr>refs = [], next_var = 1\<rparr>
       = Some (Panic, \<lparr>refs = [], next_var = 1\<rparr>)
   \<and> distinct [Variable 1, Variable 2]
   \<and> Lookup [(0, Compound ''foo'' [Variable 1, Variable 2])] 1 = None
   \<and> Lookup [(0, Compound ''foo'' [Variable 1, Variable 2])] 2 = None
   \<and> well_formed \<lparr>refs = [(0, Compound ''foo'' [Variable 1, Variable 2])], next_var = 3\<rparr>"
proof -
  define h where "h = \<lparr>refs = [], next_var = 1\<rparr>"
  have h1: "Resolve (refs h) (Variable 0) = Some (Variable 0)"
    by (simp add: h_def Resolve_Variable Lookup_def)
  have h2: "Resolve (refs h) (Atom ''foo'') = Some (Atom ''foo'')" by simp
  have h3: "Resolve (refs h) (Integer 0) = Some (Integer 0)" by simp
  have h4: "Resolve (refs h) (Integer 2) = Some (Integer 2)" by simp
  have h5: "Resolve (refs h) (Integer (2 ^ 62)) = Some (Integer (2 ^ 62))" by simp
  have wf: "well_formed h" by (simp add: h_def well_formed_def in_use_def)
  have lt: "0 < next_var h" by (simp add: h_def)
  have u: "[Suc 0..<3] = [1, 2]" by (simp add: upt_rec)
  have f: "fresh_vars h (nat 2) = [Variable 1, Variable 2]"
    by (simp add: fresh_vars_def h_def u)
  have big: "makeslice_limit (2 ^ 63) < 2 ^ 62" "\<not> makeslice_limit 1000 < 2"
    by (simp_all add: makeslice_limit_def)
  note zero = Functor_unbound_term[OF h1 h2 h3, of 0 1000]
  note two = Functor_unbound_term[OF h1 h2 h4, of 0 1000]
  note large = Functor_unbound_term[OF h1 h2 h5, of 0 "2 ^ 63"]
  from zero have A: "Functor (Suc 0) 1000 (Variable 0) (Atom ''foo'') (Integer 0) h
       = Some (Continue, \<lparr>refs = [(0, Integer 0)], next_var = 1\<rparr>)"
    by (simp add: h_def Bind_def)
  have nv: "next_var h + nat 2 = 3" by (simp add: h_def)
  have env: "Bind (refs h) 0 (Compound ''foo'' [Variable 1, Variable 2])
               = [(0, Compound ''foo'' [Variable 1, Variable 2])]"
    by (simp add: h_def Bind_def)
  have h': "h\<lparr>next_var := 3, refs := [(0, Compound ''foo'' [Variable 1, Variable 2])]\<rparr>
            = \<lparr>refs = [(0, Compound ''foo'' [Variable 1, Variable 2])], next_var = 3\<rparr>"
    by (simp add: h_def)
  have in1: "1 \<in> {next_var h..<3}" and in2: "2 \<in> {next_var h..<3}" by (simp_all add: h_def)
  from two[unfolded f nv env h'] big(2)
  have B: "Functor (Suc 0) 1000 (Variable 0) (Atom ''foo'') (Integer 2) h
       = Some (Continue, \<lparr>refs = [(0, Compound ''foo'' [Variable 1, Variable 2])], next_var = 3\<rparr>)"
    by simp
  from two[unfolded f nv env h'] wf lt
  have fresh: "distinct [Variable 1 :: Term, Variable 2]
      \<and> (\<forall>w \<in> {next_var h..<3}.
            Variable w \<in> set [Variable 1 :: Term, Variable 2] \<and> w \<notin> in_use h
            \<and> w \<notin> vars_of (Variable 0) \<union> vars_of (Atom ''foo'') \<union> vars_of (Integer 2)
            \<and> Lookup [(0, Compound ''foo'' [Variable 1, Variable 2])] w = None)
      \<and> well_formed \<lparr>refs = [(0, Compound ''foo'' [Variable 1, Variable 2])], next_var = 3\<rparr>"
    by blast
  from fresh have D: "distinct [Variable 1 :: Term, Variable 2]"
    and W: "well_formed \<lparr>refs = [(0, Compound ''foo'' [Variable 1, Variable 2])], next_var = 3\<rparr>"
    by blast+
  from fresh in1 have L1: "Lookup [(0, Compound ''foo'' [Variable 1, Variable 2])] 1 = None"
    by blast
  from fresh in2 have L2: "Lookup [(0, Compound ''foo'' [Variable 1, Variable 2])] 2 = None"
    by blast
  from large have C: "Functor (Suc 0) (2 ^ 63) (Variable 0) (Atom ''foo'') (Integer (2 ^ 62)) h
       = Some (Panic, h)"
    using big by simp
  from h1 h2 h3 h4 h5 wf A B C D L1 L2 W show ?thesis
    unfolding h_def by simp
qed

subsection \<open>Arriving at an unknown procedure\<close>

text \<open>
  C2. When the machine arrives at a goal whose arguments can be listed and whose procedure
  indicator has no procedure, the \<^verbatim>\<open>unknown\<close> flag decides: \<open>error\<close> gives the existence error
  of the procedure \<open>name/arity\<close>; \<open>fail\<close> gives \<open>false\<close> and no error, and nothing is logged;
  \<open>warning\<close> logs a warning about the procedure and then gives \<open>false\<close>. In each case the
  arrive hook has seen the goal before.
\<close>

theorem arrive_unknown_procedure:
  assumes "Each n args collect (refs (store vm)) [] = Some (Inr as)"
    and "procedures vm pi' = None"
    and "goal = (if length as = 0 then Atom (pi_name pi') else Compound (pi_name pi') as)"
  shows "(unknown vm = unknownError \<longrightarrow>
            arrive Call n vm pi' args k =
              Some (Error (existenceErrorProcedure
                      (Compound ''/'' [Atom (pi_name pi'), Integer (pi_arity pi')])),
                    vm\<lparr>events := events vm @ [OnArrive goal]\<rparr>))
       \<and> (unknown vm = unknownFail \<longrightarrow>
            arrive Call n vm pi' args k =
              Some (Bool False, vm\<lparr>events := events vm @ [OnArrive goal]\<rparr>))
       \<and> (unknown vm = unknownWarning \<longrightarrow>
            arrive Call n vm pi' args k =
              Some (Bool False,
                    vm\<lparr>events := events vm @ [OnArrive goal, Warn_unknown_procedure pi']\<rparr>))"
  using assms
  by (simp add: arrive_def Let_def unknownError_def unknownFail_def unknownWarning_def)

theorem arrive_unknown_procedure_witness:
  "Each 3 (List [Atom ''a'']) collect [] [] = Some (Inr [Atom ''a''])
   \<and> arrive (\<lambda>p vm args k. (k, vm)) 3
        \<lparr>procedures = (Map.empty :: procedureIndicator \<rightharpoonup> unit), unknown = unknownError,
         store = \<lparr>refs = [], next_var = 0\<rparr>, events = []\<rparr>
        \<lparr>pi_name = ''foo'', pi_arity = 1\<rparr> (List [Atom ''a'']) (Bool True)
      = Some (Error (existenceErrorProcedure (Compound ''/'' [Atom ''foo'', Integer 1])),
              \<lparr>procedures = Map.empty, unknown = unknownError,
               store = \<lparr>refs = [], next_var = 0\<rparr>,
               events = [OnArrive (Compound ''foo'' [Atom ''a''])]\<rparr>)
   \<and> arrive (\<lambda>p vm args k. (k, vm)) 3
        \<lparr>procedures = (Map.empty :: procedureIndicator \<rightharpoonup> unit), unknown = unknownFail,
         store = \<lparr>refs = [], next_var = 0\<rparr>, events = []\<rparr>
        \<lparr>pi_name = ''foo'', pi_arity = 1\<rparr> (List [Atom ''a'']) (Bool True)
      = Some (Bool False,
              \<lparr>procedures = Map.empty, unknown = unknownFail,
               store = \<lparr>refs = [], next_var = 0\<rparr>,
               events = [OnArrive (Compound ''foo'' [Atom ''a''])]\<rparr>)
   \<and> arrive (\<lambda>p vm args k. (k, vm)) 3
        \<lparr>procedures = (Map.empty :: procedureIndicator \<rightharpoonup> unit), unknown = unknownWarning,
         store = \<lparr>refs = [], next_var = 0\<rparr>, events = []\<rparr>
        \<lparr>pi_name = ''foo'', pi_arity = 1\<rparr> (List [Atom ''a'']) (Bool True)
      = Some (Bool False,
              \<lparr>procedures = Map.empty, unknown = unknownWarning,
               store = \<lparr>refs = [], next_var = 0\<rparr>,
               events = [OnArrive (Compound ''foo'' [Atom ''a'']),
                         Warn_unknown_procedure \<lparr>pi_name = ''foo'', pi_arity = 1\<rparr>]\<rparr>)"
proof -
  have e: "Each 3 (List [Atom ''a'']) collect [] [] = Some (Inr [Atom ''a''])"
    by (simp add: Each_def EachList_def List_def ListRest_def Cons_def collect_def
        eval_nat_numeral)
  have g: "Compound ''foo'' [Atom ''a'']
      = (if length [Atom ''a''] = 0 then Atom (pi_name \<lparr>pi_name = ''foo'', pi_arity = 1\<rparr>)
         else Compound (pi_name \<lparr>pi_name = ''foo'', pi_arity = 1\<rparr>) [Atom ''a''])"
    by simp
  note t = arrive_unknown_procedure[where as = "[Atom ''a'']" and n = 3
      and args = "List [Atom ''a'']" and pi' = "\<lparr>pi_name = ''foo'', pi_arity = 1\<rparr>"
      and goal = "Compound ''foo'' [Atom ''a'']" and Call = "\<lambda>p vm args k. (k, vm)"
      and k = "Bool True", OF _ _ g]
  from t[of "\<lparr>procedures = (Map.empty :: procedureIndicator \<rightharpoonup> unit), unknown = unknownError,
         store = \<lparr>refs = [], next_var = 0\<rparr>, events = []\<rparr>"]
       t[of "\<lparr>procedures = (Map.empty :: procedureIndicator \<rightharpoonup> unit), unknown = unknownFail,
         store = \<lparr>refs = [], next_var = 0\<rparr>, events = []\<rparr>"]
       t[of "\<lparr>procedures = (Map.empty :: procedureIndicator \<rightharpoonup> unit), unknown = unknownWarning,
         store = \<lparr>refs = [], next_var = 0\<rparr>, events = []\<rparr>"]
       e
  show ?thesis by simp
qed

subsection \<open>Compilation of a clause\<close>

lemma has_operand_simps [simp]:
  "has_operand opConst" "has_operand opVar" "has_operand opFunctor" "has_operand opCall"
  "\<not> has_operand opPop" "\<not> has_operand opCut" "\<not> has_operand opEnter" "\<not> has_operand opExit"
  by (simp_all add: has_operand_def opConst_def opVar_def opFunctor_def opCall_def opPop_def
      opCut_def opEnter_def opExit_def)





















subsection \<open>Writing numbered variables\<close>

lemma number_var_nonneg:
  assumes "0 \<le> N"
  shows "number_var N =
           Some (Value [\<lparr>Kind = TokenVariable,
                         Val = letters ! nat (N mod 26) #
                               (if 0 < N div 26 then string_of_nat (nat (N div 26)) else [])\<rparr>])"
proof -
  have l: "int (length letters) = 26" by (simp add: letters_def)
  have r: "go_rem N 26 = N mod 26" using assms by (cases "N = 0") (simp_all add: go_rem_def)
  have q: "go_quot N 26 = N div 26" using assms by (cases "N = 0") (simp_all add: go_quot_def)
  have d: "0 \<le> N div 26" using assms by simp
  have m: "\<not> N mod 26 < 0" by simp
  show ?thesis
  proof (cases "N div 26 = 0")
    case True
    then show ?thesis unfolding number_var_def l r q Let_def using m by (simp add: emit_def)
  next
    case False
    with d have p: "0 < N div 26" by simp
    then show ?thesis unfolding number_var_def l r q Let_def using m False
      by (simp add: emit_def string_of_int_def)
  qed
qed

lemma Unparse_VAR:
  assumes "NumberVars opts" and "unary_op (Ops opts) ''$VAR'' = None"
    and "Resolve env a = Some (Integer N)"
  shows "Unparse (Suc n) leaf (Compound ''$VAR'' [a]) opts env = number_var N"
  using assms by (simp add: UnparseResolved_def UnparseCompound_def)

lemma and_then_Value [simp]:
  "and_then (Some (Value xs)) (Some (Value ys)) = Some (Value (xs @ ys))"
  by (simp add: and_then_def)

text \<open>
  C9 (as amended). With \<^verbatim>\<open>number_vars\<close> set and no prefix or postfix operator named
  \<^verbatim>\<open>$VAR\<close> in the operator table of the write options, unparsing \<^verbatim>\<open>$VAR(N)\<close> whose argument
  resolves to an integer \<open>N \<ge> 0\<close> emits one variable token: the letter at index \<open>N mod 26\<close>
  of A..Z, followed by the number \<open>N div 26\<close> exactly when it is positive. In particular
  \<^verbatim>\<open>f($VAR(0),$VAR(1),$VAR(25),$VAR(26),$VAR(27))\<close> unparses as \<^verbatim>\<open>f(A,B,Z,A1,B1)\<close>.
\<close>

theorem Unparse_number_vars:
  assumes "NumberVars opts" and "unary_op (Ops opts) ''$VAR'' = None"
  shows "(Resolve env a = Some (Integer N) \<and> 0 \<le> N \<longrightarrow>
            Unparse (Suc n) leaf (Compound ''$VAR'' [a]) opts env =
              Some (Value [\<lparr>Kind = TokenVariable,
                            Val = letters ! nat (N mod 26) #
                                  (if 0 < N div 26 then string_of_nat (nat (N div 26)) else [])\<rparr>]))
       \<and> Unparse (Suc (Suc (Suc n))) leaf
            (Compound ''f'' [Compound ''$VAR'' [Integer 0], Compound ''$VAR'' [Integer 1],
                             Compound ''$VAR'' [Integer 25], Compound ''$VAR'' [Integer 26],
                             Compound ''$VAR'' [Integer 27]]) opts env =
              Some (Value (leaf (Atom ''f'') opts env @
                [\<lparr>Kind = TokenParenL, Val = ''(''\<rparr>,
                 \<lparr>Kind = TokenVariable, Val = ''A''\<rparr>, \<lparr>Kind = TokenComma, Val = '',''\<rparr>,
                 \<lparr>Kind = TokenVariable, Val = ''B''\<rparr>, \<lparr>Kind = TokenComma, Val = '',''\<rparr>,
                 \<lparr>Kind = TokenVariable, Val = ''Z''\<rparr>, \<lparr>Kind = TokenComma, Val = '',''\<rparr>,
                 \<lparr>Kind = TokenVariable, Val = ''A1''\<rparr>, \<lparr>Kind = TokenComma, Val = '',''\<rparr>,
                 \<lparr>Kind = TokenVariable, Val = ''B1''\<rparr>,
                 \<lparr>Kind = TokenParenR, Val = '')''\<rparr>]))"
proof (intro conjI impI)
  assume "Resolve env a = Some (Integer N) \<and> 0 \<le> N"
  then show "Unparse (Suc n) leaf (Compound ''$VAR'' [a]) opts env =
              Some (Value [\<lparr>Kind = TokenVariable,
                            Val = letters ! nat (N mod 26) #
                                  (if 0 < N div 26 then string_of_nat (nat (N div 26)) else [])\<rparr>])"
    using Unparse_VAR[OF assms, of env a N n leaf] number_var_nonneg[of N] by simp
next
  have v: "Unparse (Suc (Suc n)) leaf (Compound ''$VAR'' [Integer k]) opts env = number_var k" for k
    using Unparse_VAR[OF assms, of env "Integer k" k "Suc n" leaf] by simp
  have s1: "string_of_nat (Suc 0) = ''1''" by (simp add: string_of_nat.simps digit_def)
  have n0: "number_var 0 = Some (Value [\<lparr>Kind = TokenVariable, Val = ''A''\<rparr>])"
    using number_var_nonneg[of 0] by (simp add: letters_def)
  have n1: "number_var 1 = Some (Value [\<lparr>Kind = TokenVariable, Val = ''B''\<rparr>])"
    using number_var_nonneg[of 1] by (simp add: letters_def)
  have n25: "number_var 25 = Some (Value [\<lparr>Kind = TokenVariable, Val = ''Z''\<rparr>])"
    using number_var_nonneg[of 25] by (simp add: letters_def)
  have n26: "number_var 26 = Some (Value [\<lparr>Kind = TokenVariable, Val = ''A1''\<rparr>])"
    using number_var_nonneg[of 26] by (simp add: letters_def s1)
  have n27: "number_var 27 = Some (Value [\<lparr>Kind = TokenVariable, Val = ''B1''\<rparr>])"
    using number_var_nonneg[of 27] by (simp add: letters_def s1)
  show "Unparse (Suc (Suc (Suc n))) leaf
            (Compound ''f'' [Compound ''$VAR'' [Integer 0], Compound ''$VAR'' [Integer 1],
                             Compound ''$VAR'' [Integer 25], Compound ''$VAR'' [Integer 26],
                             Compound ''$VAR'' [Integer 27]]) opts env =
              Some (Value (leaf (Atom ''f'') opts env @
                [\<lparr>Kind = TokenParenL, Val = ''(''\<rparr>,
                 \<lparr>Kind = TokenVariable, Val = ''A''\<rparr>, \<lparr>Kind = TokenComma, Val = '',''\<rparr>,
                 \<lparr>Kind = TokenVariable, Val = ''B''\<rparr>, \<lparr>Kind = TokenComma, Val = '',''\<rparr>,
                 \<lparr>Kind = TokenVariable, Val = ''Z''\<rparr>, \<lparr>Kind = TokenComma, Val = '',''\<rparr>,
                 \<lparr>Kind = TokenVariable, Val = ''A1''\<rparr>, \<lparr>Kind = TokenComma, Val = '',''\<rparr>,
                 \<lparr>Kind = TokenVariable, Val = ''B1''\<rparr>,
                 \<lparr>Kind = TokenParenR, Val = '')''\<rparr>]))"
    unfolding Unparse.simps(2)[of "Suc (Suc n)"]
    by (simp add: UnparseResolved_def UnparseCompound_def v n0 n1 n25 n26 n27 emit_def all_of_def
        del: Unparse.simps)
qed

theorem Unparse_number_vars_witness:
  "NumberVars \<lparr>Quoted = False, Ops = [], Priority = 1200, NumberVars = True\<rparr>
   \<and> unary_op (Ops \<lparr>Quoted = False, Ops = [], Priority = 1200, NumberVars = True\<rparr>) ''$VAR'' = None
   \<and> Resolve [] (Integer 27) = Some (Integer 27) \<and> (0 :: int) \<le> 27
   \<and> Unparse (Suc 0) test_leaf (Compound ''$VAR'' [Integer 27])
        \<lparr>Quoted = False, Ops = [], Priority = 1200, NumberVars = True\<rparr> []
      = Some (Value [\<lparr>Kind = TokenVariable, Val = ''B1''\<rparr>])"
proof -
  let ?o = "\<lparr>Quoted = False, Ops = [], Priority = 1200, NumberVars = True\<rparr>"
  have h1: "NumberVars ?o" by simp
  have h2: "unary_op (Ops ?o) ''$VAR'' = None" by (simp add: unary_op_def)
  have h3: "Resolve [] (Integer 27) = Some (Integer 27)" by simp
  have s1: "string_of_nat (Suc 0) = ''1''" by (simp add: string_of_nat.simps digit_def)
  from Unparse_number_vars[OF h1 h2, of "[]" "Integer 27" 27 0 test_leaf] h3
  have "Unparse (Suc 0) test_leaf (Compound ''$VAR'' [Integer 27]) ?o []
      = Some (Value [\<lparr>Kind = TokenVariable, Val = ''B1''\<rparr>])"
    by (simp add: letters_def s1)
  with h1 h2 h3 show ?thesis by simp
qed

text \<open>
  C9 as stated fails when \<^verbatim>\<open>$VAR\<close> is a prefix operator of the write options: the operator
  table is consulted before \<^verbatim>\<open>number_vars\<close>, and \<^verbatim>\<open>$VAR(1)\<close> is written as the operator
  and its argument.
\<close>

theorem Unparse_number_vars_operator_counterexample:
  "NumberVars \<lparr>Quoted = False,
       Ops = [\<lparr>OpPriority = 200, Specifier = OperatorSpecifierFY, OpName = ''$VAR''\<rparr>],
       Priority = 1200, NumberVars = True\<rparr>
   \<and> Unparse (Suc (Suc 0)) test_leaf (Compound ''$VAR'' [Integer 1])
        \<lparr>Quoted = False,
         Ops = [\<lparr>OpPriority = 200, Specifier = OperatorSpecifierFY, OpName = ''$VAR''\<rparr>],
         Priority = 1200, NumberVars = True\<rparr> []
      = Some (Value [\<lparr>Kind = TokenIdent, Val = ''$VAR''\<rparr>, \<lparr>Kind = TokenInteger, Val = ''1''\<rparr>])"
  by (simp add: UnparseResolved_def UnparseCompound_def unary_op_def parens_def test_leaf_def
      string_of_nat.simps digit_def)

subsection \<open>Termination of the writer\<close>

lemma le_out_refl: "le_out m m" by (simp add: le_out_def)

lemma le_out_None: "le_out None m" by (simp add: le_out_def)

lemma and_then_mono: "le_out m1 m1' \<Longrightarrow> le_out m2 m2' \<Longrightarrow> le_out (and_then m1 m2) (and_then m1' m2')"
  by (auto simp: le_out_def and_then_def split: option.splits go_result.splits)

lemma parens_mono: "le_out m m' \<Longrightarrow> le_out (parens b m) (parens b m')"
  by (simp add: parens_def and_then_mono le_out_refl)

lemma all_of_mono:
  "(\<And>x. le_out (g x) (g' x)) \<Longrightarrow> le_out (all_of (map g xs)) (all_of (map g' xs))"
  by (induction xs) (simp_all add: all_of_def and_then_mono le_out_refl)

lemma le_out_if:
  "(c \<Longrightarrow> le_out a a') \<Longrightarrow> (\<not> c \<Longrightarrow> le_out b b') \<Longrightarrow>
   le_out (if c then a else b) (if c then a' else b')"
  by simp

lemma le_out_case_option:
  "le_out a a' \<Longrightarrow> (\<And>y. le_out (g y) (g' y)) \<Longrightarrow>
   le_out (case x of None \<Rightarrow> a | Some y \<Rightarrow> g y) (case x of None \<Rightarrow> a' | Some y \<Rightarrow> g' y)"
  by (cases x) simp_all

lemma le_out_case_list:
  "le_out a a' \<Longrightarrow> (\<And>y ys. le_out (g y ys) (g' y ys)) \<Longrightarrow>
   le_out (case x of [] \<Rightarrow> a | y # ys \<Rightarrow> g y ys) (case x of [] \<Rightarrow> a' | y # ys \<Rightarrow> g' y ys)"
  by (cases x) simp_all

lemma le_out_case_Term:
  "(\<And>a. le_out (f1 a) (f1' a)) \<Longrightarrow> (\<And>a. le_out (f2 a) (f2' a)) \<Longrightarrow>
   (\<And>a. le_out (f3 a) (f3' a)) \<Longrightarrow> (\<And>a. le_out (f4 a) (f4' a)) \<Longrightarrow>
   (\<And>a b. le_out (f5 a b) (f5' a b)) \<Longrightarrow>
   le_out (case t of Atom a \<Rightarrow> f1 a | Integer a \<Rightarrow> f2 a | Float a \<Rightarrow> f3 a
           | Variable a \<Rightarrow> f4 a | Compound a b \<Rightarrow> f5 a b)
          (case t of Atom a \<Rightarrow> f1' a | Integer a \<Rightarrow> f2' a | Float a \<Rightarrow> f3' a
           | Variable a \<Rightarrow> f4' a | Compound a b \<Rightarrow> f5' a b)"
  by (cases t) simp_all

lemmas le_out_intros =
  le_out_if le_out_case_option le_out_case_list le_out_case_Term and_then_mono parens_mono
  all_of_mono

lemma UnparseCompound_mono:
  assumes U: "\<And>t o'. le_out (U t o') (U' t o')" and T: "\<And>t. le_out (T t) (T' t)"
  shows "le_out (UnparseCompound U T leaf f args opts env) (UnparseCompound U' T' leaf f args opts env)"
  unfolding UnparseCompound_def
  by (intro le_out_intros U T le_out_refl)

lemma UnparseResolved_mono:
  assumes U: "\<And>t o'. le_out (U t o') (U' t o')" and T: "\<And>t. le_out (T t) (T' t)"
  shows "le_out (UnparseResolved U T leaf r opts env) (UnparseResolved U' T' leaf r opts env)"
  unfolding UnparseResolved_def
  by (intro le_out_intros UnparseCompound_mono U T le_out_refl)

lemma UnparseTail_step_mono:
  assumes U: "\<And>t o'. le_out (U t o') (U' t o')" and T: "\<And>t. le_out (T t) (T' t)"
  shows "le_out (UnparseTail_step U T leaf r opts env) (UnparseTail_step U' T' leaf r opts env)"
  unfolding UnparseTail_step_def
  by (intro le_out_intros UnparseResolved_mono U T le_out_refl)

lemma Unparse_Suc_mono:
  "le_out (Unparse n leaf t opts env) (Unparse (Suc n) leaf t opts env)
   \<and> le_out (UnparseTail n leaf t opts env) (UnparseTail (Suc n) leaf t opts env)"
proof (induction n arbitrary: t opts)
  case 0
  show ?case by (simp add: le_out_None)
next
  case (Suc n)
  have U: "le_out (Unparse n leaf t o' env) (Unparse (Suc n) leaf t o' env)" for t o'
    using Suc by blast
  have T: "le_out (UnparseTail n leaf t o' env) (UnparseTail (Suc n) leaf t o' env)" for t o'
    using Suc by blast
  have "le_out (Unparse (Suc n) leaf t opts env) (Unparse (Suc (Suc n)) leaf t opts env)"
    unfolding Unparse.simps(2)[of n leaf t opts env] Unparse.simps(2)[of "Suc n" leaf t opts env]
    by (intro le_out_intros UnparseResolved_mono U T le_out_refl)
  moreover have "le_out (UnparseTail (Suc n) leaf t opts env) (UnparseTail (Suc (Suc n)) leaf t opts env)"
    unfolding UnparseTail.simps(2)[of n leaf t opts env]
      UnparseTail.simps(2)[of "Suc n" leaf t opts env]
    by (intro UnparseTail_step_mono U T)
  ultimately show ?case by blast
qed

lemma Unparse_mono:
  "n \<le> m \<Longrightarrow> le_out (Unparse n leaf t opts env) (Unparse m leaf t opts env)"
proof (induction m)
  case 0
  then show ?case by (simp add: le_out_refl)
next
  case (Suc m)
  show ?case
  proof (cases "n = Suc m")
    case True
    then show ?thesis by (simp add: le_out_refl del: Unparse.simps)
  next
    case False
    with Suc have "le_out (Unparse n leaf t opts env) (Unparse m leaf t opts env)" by simp
    moreover have "le_out (Unparse m leaf t opts env) (Unparse (Suc m) leaf t opts env)"
      using Unparse_Suc_mono by blast
    ultimately show ?thesis unfolding le_out_def by auto
  qed
qed

lemma UnparseTail_mono:
  "n \<le> m \<Longrightarrow> le_out (UnparseTail n leaf t opts env) (UnparseTail m leaf t opts env)"
proof (induction m)
  case 0
  then show ?case by (simp add: le_out_refl)
next
  case (Suc m)
  show ?case
  proof (cases "n = Suc m")
    case True
    then show ?thesis by (simp add: le_out_refl del: UnparseTail.simps)
  next
    case False
    with Suc have "le_out (UnparseTail n leaf t opts env) (UnparseTail m leaf t opts env)" by simp
    moreover have "le_out (UnparseTail m leaf t opts env) (UnparseTail (Suc m) leaf t opts env)"
      using Unparse_Suc_mono by blast
    ultimately show ?thesis unfolding le_out_def by auto
  qed
qed

lemma and_then_defined: "m1 \<noteq> None \<Longrightarrow> m2 \<noteq> None \<Longrightarrow> and_then m1 m2 \<noteq> None"
  by (auto simp: and_then_def split: option.splits go_result.splits)

lemma emit_defined: "emit k v \<noteq> None" by (simp add: emit_def)

lemma parens_defined: "m \<noteq> None \<Longrightarrow> parens b m \<noteq> None"
  unfolding parens_def by (cases b) (simp_all only: if_True if_False and_then_defined emit_defined not_False_eq_True)

lemma all_of_defined: "(\<And>x. x \<in> set xs \<Longrightarrow> g x \<noteq> None) \<Longrightarrow> all_of (map g xs) \<noteq> None"
  by (induction xs) (simp_all add: all_of_def and_then_defined)

lemma number_var_defined: "number_var i \<noteq> None"
  by (simp add: number_var_def Let_def emit_def)

lemma defined_if: "(c \<Longrightarrow> a \<noteq> None) \<Longrightarrow> (\<not> c \<Longrightarrow> b \<noteq> None) \<Longrightarrow> (if c then a else b) \<noteq> None"
  by simp

lemma defined_case_option:
  "(x = None \<Longrightarrow> a \<noteq> None) \<Longrightarrow> (\<And>y. x = Some y \<Longrightarrow> g y \<noteq> None) \<Longrightarrow>
   (case x of None \<Rightarrow> a | Some y \<Rightarrow> g y) \<noteq> None"
  by (cases x) simp_all

lemma defined_case_list:
  "(x = [] \<Longrightarrow> a \<noteq> None) \<Longrightarrow> (\<And>y ys. x = y # ys \<Longrightarrow> g y ys \<noteq> None) \<Longrightarrow>
   (case x of [] \<Rightarrow> a | y # ys \<Rightarrow> g y ys) \<noteq> None"
  by (cases x) simp_all

lemma defined_case_Term:
  "(\<And>a. f1 a \<noteq> None) \<Longrightarrow> (\<And>a. f2 a \<noteq> None) \<Longrightarrow>
   (\<And>a. f3 a \<noteq> None) \<Longrightarrow> (\<And>a. f4 a \<noteq> None) \<Longrightarrow>
   (\<And>a b. f5 a b \<noteq> None) \<Longrightarrow>
   (case t of Atom a \<Rightarrow> f1 a | Integer a \<Rightarrow> f2 a | Float a \<Rightarrow> f3 a
           | Variable a \<Rightarrow> f4 a | Compound a b \<Rightarrow> f5 a b) \<noteq> None"
  by (cases t) simp_all

lemmas defined_intros =
  defined_if defined_case_option defined_case_list defined_case_Term and_then_defined
  parens_defined all_of_defined emit_defined number_var_defined

lemma UnparseCompound_defined:
  assumes U: "\<And>a. a \<in> set args \<Longrightarrow> U a opts \<noteq> None"
    and Uop: "\<And>a op. a \<in> set args \<Longrightarrow> op \<in> set (Ops opts) \<Longrightarrow>
                 U a (opts\<lparr>Priority := OpPriority op\<rparr>) \<noteq> None"
    and T: "\<And>t. length args = 2 \<Longrightarrow> Resolve env (args ! 1) = Some t \<Longrightarrow> T t \<noteq> None"
    and R: "\<And>a. a \<in> set args \<Longrightarrow> Resolve env a \<noteq> None"
  shows "UnparseCompound U T leaf f args opts env \<noteq> None"
proof -
  have m: "op \<in> set (Ops opts)"
    if "(if length args = 1 then unary_op (Ops opts) f
         else if length args = 2 then binary_op (Ops opts) f else None) = Some op" for op
    using that by (auto simp: unary_op_def binary_op_def find_Some_iff split: if_splits)
  have a0: "args ! 0 \<in> set args" if "length args = 1 \<or> length args = 2"
    using that by (intro nth_mem) auto
  have a1: "args ! 1 \<in> set args" if "length args = 2" using that by (intro nth_mem) auto
  have op_len: "length args = 1 \<or> length args = 2"
    if "(if length args = 1 then unary_op (Ops opts) f
         else if length args = 2 then binary_op (Ops opts) f else None) = Some op" for op
    using that by (auto split: if_splits)
  have two: "length args = 2"
    if "(if length args = 1 then unary_op (Ops opts) f
         else if length args = 2 then binary_op (Ops opts) f else None) = Some op"
      "Specifier op \<notin> {OperatorSpecifierFX, OperatorSpecifierFY}"
      "Specifier op \<notin> {OperatorSpecifierXF, OperatorSpecifierYF}" for op
    using that by (auto simp: unary_op_def find_Some_iff split: if_splits)
  let ?op = "if length args = 1 then unary_op (Ops opts) f
             else if length args = 2 then binary_op (Ops opts) f else None"
  consider (list) "f = ''.'' \<and> length args = 2"
    | (block) "\<not> (f = ''.'' \<and> length args = 2)" "f = ''{}'' \<and> length args = 1"
    | (oper) op where "\<not> (f = ''.'' \<and> length args = 2)" "\<not> (f = ''{}'' \<and> length args = 1)"
        "?op = Some op"
    | (plain) "\<not> (f = ''.'' \<and> length args = 2)" "\<not> (f = ''{}'' \<and> length args = 1)"
        "?op = None"
    by (cases ?op) auto
  then show ?thesis
  proof cases
    case list
    then obtain t where t: "Resolve env (args ! 1) = Some t" using R[OF a1] by auto
    have "UnparseCompound U T leaf f args opts env =
        and_then (emit TokenBracketL ''['')
       (and_then (U (args ! 0) opts) (and_then (T t) (emit TokenBracketR '']'')))"
      unfolding UnparseCompound_def by (simp only: if_P[OF list] t option.simps)
    moreover have "U (args ! 0) opts \<noteq> None" using U a0 list by simp
    moreover have "T t \<noteq> None" using T list t by simp
    ultimately show ?thesis by (simp add: and_then_defined emit_defined)
  next
    case block
    have "UnparseCompound U T leaf f args opts env =
        and_then (emit TokenBraceL ''{'') (and_then (U (args ! 0) opts) (emit TokenBraceR ''}''))"
      unfolding UnparseCompound_def by (simp only: if_not_P[OF block(1)] if_P[OF block(2)])
    moreover have "U (args ! 0) opts \<noteq> None" using U a0 block by simp
    ultimately show ?thesis by (simp add: and_then_defined emit_defined)
  next
    case oper
    note mem = m[OF oper(3)]
    have u0: "U (args ! 0) (opts\<lparr>Priority := OpPriority op\<rparr>) \<noteq> None"
      using Uop[OF a0[OF op_len[OF oper(3)]] mem] .
    have u1: "U (args ! 1) (opts\<lparr>Priority := OpPriority op\<rparr>) \<noteq> None"
      if "Specifier op \<notin> {OperatorSpecifierFX, OperatorSpecifierFY}"
        "Specifier op \<notin> {OperatorSpecifierXF, OperatorSpecifierYF}"
      using Uop[OF a1[OF two[OF oper(3) that]] mem] .
    have l: "Some (Value (leaf (Atom f) opts env)) \<noteq> None" by simp
    have "UnparseCompound U T leaf f args opts env =
        parens (OpPriority op > Priority opts)
               (if Specifier op \<in> {OperatorSpecifierFX, OperatorSpecifierFY} then
                  and_then (Some (Value (leaf (Atom f) opts env)))
                           (U (args ! 0) (opts\<lparr>Priority := OpPriority op\<rparr>))
                else if Specifier op \<in> {OperatorSpecifierXF, OperatorSpecifierYF} then
                  and_then (U (args ! 0) (opts\<lparr>Priority := OpPriority op\<rparr>))
                           (Some (Value (leaf (Atom f) opts env)))
                else
                  and_then (U (args ! 0) (opts\<lparr>Priority := OpPriority op\<rparr>))
                 (and_then (Some (Value (leaf (Atom f) opts env)))
                           (U (args ! 1) (opts\<lparr>Priority := OpPriority op\<rparr>))))"
      unfolding UnparseCompound_def
      by (simp only: if_not_P[OF oper(1)] if_not_P[OF oper(2)] oper(3) option.simps)
    also have "\<dots> \<noteq> None"
      by (intro parens_defined defined_if and_then_defined u0 u1 l)
    finally show ?thesis .
  next
    case plain
    let ?r = "if NumberVars opts \<and> f = ''$VAR'' \<and> length args = 1
              then Resolve env (args ! 0) else Some (Atom [])"
    have "?r \<noteq> None" using R[OF a0] by auto
    then obtain y where y: "?r = Some y" by blast
    have canon: "and_then (Some (Value (leaf (Atom f) opts env)))
                 (and_then (emit TokenParenL ''('')
                 (case args of
                    [] \<Rightarrow> Some RuntimePanic
                  | a # as \<Rightarrow>
                      and_then (U a opts)
                     (and_then (all_of (map (\<lambda>arg. and_then (emit TokenComma '','') (U arg opts)) as))
                               (emit TokenParenR '')'')))) \<noteq> None"
      by (intro defined_intros; (use U in \<open>simp\<close>))
    have "UnparseCompound U T leaf f args opts env =
            (case y of Integer i \<Rightarrow> number_var i
             | _ \<Rightarrow> and_then (Some (Value (leaf (Atom f) opts env)))
                 (and_then (emit TokenParenL ''('')
                 (case args of
                    [] \<Rightarrow> Some RuntimePanic
                  | a # as \<Rightarrow>
                      and_then (U a opts)
                     (and_then (all_of (map (\<lambda>arg. and_then (emit TokenComma '','') (U arg opts)) as))
                               (emit TokenParenR '')'')))))"
      unfolding UnparseCompound_def
      by (simp only: if_not_P[OF plain(1)] if_not_P[OF plain(2)] plain(3) y option.simps)
    also have "\<dots> \<noteq> None"
      using canon by (cases y) (simp_all add: number_var_defined)
    finally show ?thesis .
  qed
qed

lemma le_out_defined: "le_out a b \<Longrightarrow> a \<noteq> None \<Longrightarrow> b \<noteq> None"
  by (auto simp: le_out_def)

lemma uniform_bound:
  assumes "finite S" and "\<And>x. x \<in> S \<Longrightarrow> \<exists>n. Q n x"
    and mono: "\<And>n m x. Q n x \<Longrightarrow> n \<le> m \<Longrightarrow> Q m x"
  shows "\<exists>m::nat. \<forall>x\<in>S. Q m x"
  using assms(1,2)
proof (induction S rule: finite_induct)
  case empty
  show ?case by simp
next
  case (insert x F)
  then obtain m where m: "\<forall>y\<in>F. Q m y" by auto
  from insert.prems obtain n where n: "Q n x" by auto
  have "Q (max m n) x" using n by (rule mono) simp
  moreover have "\<forall>y\<in>F. Q (max m n) y" using m mono by (meson max.cobounded1)
  ultimately show ?case by blast
qed

lemma finite_under_Resolve: "finite_under env t \<Longrightarrow> Resolve env t \<noteq> None"
  by (cases rule: finite_under.cases) auto

lemma UnparseTail_step_defined:
  assumes U: "\<And>a. a \<in> set args \<Longrightarrow> U a opts \<noteq> None"
    and Uop: "\<And>a op. a \<in> set args \<Longrightarrow> op \<in> set (Ops opts) \<Longrightarrow>
                 U a (opts\<lparr>Priority := OpPriority op\<rparr>) \<noteq> None"
    and T: "\<And>t. length args = 2 \<Longrightarrow> Resolve env (args ! 1) = Some t \<Longrightarrow> T t \<noteq> None"
    and R: "\<And>a. a \<in> set args \<Longrightarrow> Resolve env a \<noteq> None"
  shows "UnparseTail_step U T leaf (Compound f args) opts env \<noteq> None"
proof (cases "f = ''.'' \<and> length args = 2")
  case True
  then have a0: "args ! 0 \<in> set args" and a1: "args ! 1 \<in> set args" by (simp_all)
  from R[OF a1] obtain t where t: "Resolve env (args ! 1) = Some t" by auto
  have "UnparseTail_step U T leaf (Compound f args) opts env =
      and_then (emit TokenComma '','') (and_then (U (args ! 0) opts) (T t))"
    unfolding UnparseTail_step_def by (simp only: Term.simps if_P[OF True] t option.simps)
  moreover have "U (args ! 0) opts \<noteq> None" using U a0 by simp
  moreover have "T t \<noteq> None" using T True t by simp
  ultimately show ?thesis by (simp add: and_then_defined emit_defined)
next
  case False
  have "UnparseTail_step U T leaf (Compound f args) opts env =
      and_then (emit TokenBar ''|'') (UnparseCompound U T leaf f args opts env)"
    unfolding UnparseTail_step_def UnparseResolved_def
    by (simp only: Term.simps if_not_P[OF False])
  moreover have "UnparseCompound U T leaf f args opts env \<noteq> None"
    using U Uop T R by (rule UnparseCompound_defined)
  ultimately show ?thesis by (simp add: and_then_defined emit_defined)
qed

lemma finite_under_Unparse:
  "finite_under env t \<Longrightarrow>
   (\<forall>opts. \<exists>n. Unparse n leaf t opts env \<noteq> None) \<and>
   (\<forall>opts r. Resolve env t = Some r \<longrightarrow> (\<exists>n. UnparseTail n leaf r opts env \<noteq> None))"
proof (induction rule: finite_under.induct)
  case (finite_leaf env t r)
  have a: "Unparse (Suc 0) leaf t opts env \<noteq> None" for opts
    using finite_leaf by (cases r) (simp_all add: UnparseResolved_def)
  have b: "UnparseTail (Suc 0) leaf r opts env \<noteq> None" for opts
    using finite_leaf
    by (cases r) (simp_all add: UnparseTail_step_def UnparseResolved_def and_then_def emit_def)
  show ?case using a b finite_leaf(1) by (metis option.inject)
next
  case (finite_compound env t f args)
  have fin: "finite_under env a" if "a \<in> set args" for a
    using finite_compound(2) that by (auto simp: list_all_iff)
  have ihU: "\<exists>n. Unparse n leaf a o' env \<noteq> None" if "a \<in> set args" for a o'
    using finite_compound(2) that by (auto simp: list_all_iff)
  have ihT: "\<exists>n. UnparseTail n leaf r o' env \<noteq> None"
    if "a \<in> set args" "Resolve env a = Some r" for a r o'
    using finite_compound(2) that by (auto simp: list_all_iff)
  have R: "Resolve env a \<noteq> None" if "a \<in> set args" for a
    using fin[OF that] by (rule finite_under_Resolve)
  have main: "\<exists>m. UnparseCompound (\<lambda>t' opts'. Unparse m leaf t' opts' env)
                (\<lambda>t'. UnparseTail m leaf t' opts env) leaf f args opts env \<noteq> None
              \<and> UnparseTail_step (\<lambda>t' opts'. Unparse m leaf t' opts' env)
                (\<lambda>t'. UnparseTail m leaf t' opts env) leaf (Compound f args) opts env \<noteq> None"
    for opts
  proof -
    let ?os = "insert opts ((\<lambda>op. opts\<lparr>Priority := OpPriority op\<rparr>) ` set (Ops opts))"
    have "\<exists>m. \<forall>x\<in>set args \<times> ?os. Unparse m leaf (fst x) (snd x) env \<noteq> None"
    proof (rule uniform_bound)
      show "finite (set args \<times> ?os)" by simp
      show "\<exists>n. Unparse n leaf (fst x) (snd x) env \<noteq> None" if "x \<in> set args \<times> ?os" for x
        using ihU[of "fst x" "snd x"] that by auto
      show "Unparse m leaf (fst x) (snd x) env \<noteq> None"
        if "Unparse n leaf (fst x) (snd x) env \<noteq> None" "n \<le> m" for n m x
        using le_out_defined[OF Unparse_mono[OF that(2)] that(1)] .
    qed
    then obtain m1 where m1: "\<And>a o'. a \<in> set args \<Longrightarrow> o' \<in> ?os \<Longrightarrow>
        Unparse m1 leaf a o' env \<noteq> None" by fastforce
    have "\<exists>m2. \<forall>t'. length args = 2 \<longrightarrow> Resolve env (args ! 1) = Some t' \<longrightarrow>
            UnparseTail m2 leaf t' opts env \<noteq> None"
    proof (cases "length args = 2 \<and> (\<exists>t'. Resolve env (args ! 1) = Some t')")
      case True
      then obtain t' where t': "Resolve env (args ! 1) = Some t'" by blast
      from True have "args ! 1 \<in> set args" by simp
      from ihT[OF this t'] obtain m2 where "UnparseTail m2 leaf t' opts env \<noteq> None" by blast
      with t' show ?thesis by (intro exI[of _ m2]) auto
    next
      case False
      then show ?thesis by auto
    qed
    then obtain m2 where m2: "\<And>t'. length args = 2 \<Longrightarrow> Resolve env (args ! 1) = Some t' \<Longrightarrow>
            UnparseTail m2 leaf t' opts env \<noteq> None" by blast
    let ?m = "max m1 m2"
    have U: "Unparse ?m leaf a opts env \<noteq> None" if "a \<in> set args" for a
      using le_out_defined[OF Unparse_mono[of m1 ?m] m1[OF that, of opts]] by simp
    have Uop: "Unparse ?m leaf a (opts\<lparr>Priority := OpPriority op\<rparr>) env \<noteq> None"
      if "a \<in> set args" "op \<in> set (Ops opts)" for a op
      using le_out_defined[OF Unparse_mono[of m1 ?m] m1[OF that(1), of "opts\<lparr>Priority := OpPriority op\<rparr>"]]
        that(2) by simp
    have T: "UnparseTail ?m leaf t' opts env \<noteq> None"
      if "length args = 2" "Resolve env (args ! 1) = Some t'" for t'
      using le_out_defined[OF UnparseTail_mono[of m2 ?m] m2[OF that]] by simp
    have "UnparseCompound (\<lambda>t' opts'. Unparse ?m leaf t' opts' env)
                (\<lambda>t'. UnparseTail ?m leaf t' opts env) leaf f args opts env \<noteq> None"
      using U Uop T R by (rule UnparseCompound_defined)
    moreover have "UnparseTail_step (\<lambda>t' opts'. Unparse ?m leaf t' opts' env)
                (\<lambda>t'. UnparseTail ?m leaf t' opts env) leaf (Compound f args) opts env \<noteq> None"
      using U Uop T R by (rule UnparseTail_step_defined)
    ultimately show ?thesis by blast
  qed
  have a: "\<exists>n. Unparse n leaf t opts env \<noteq> None" for opts
  proof -
    from main[of opts] obtain m where
      "UnparseCompound (\<lambda>t' opts'. Unparse m leaf t' opts' env)
         (\<lambda>t'. UnparseTail m leaf t' opts env) leaf f args opts env \<noteq> None" by blast
    then have "Unparse (Suc m) leaf t opts env \<noteq> None"
      unfolding Unparse.simps(2)[of m leaf t opts env] finite_compound(1)
      by (simp add: UnparseResolved_def)
    then show ?thesis by blast
  qed
  have b: "\<exists>n. UnparseTail n leaf (Compound f args) opts env \<noteq> None" for opts
  proof -
    from main[of opts] obtain m where
      "UnparseTail_step (\<lambda>t' opts'. Unparse m leaf t' opts' env)
         (\<lambda>t'. UnparseTail m leaf t' opts env) leaf (Compound f args) opts env \<noteq> None" by blast
    then have "UnparseTail (Suc m) leaf (Compound f args) opts env \<noteq> None"
      unfolding UnparseTail.simps(2)[of m leaf "Compound f args" opts env] .
    then show ?thesis by blast
  qed
  show ?case using a b finite_compound(1) by (metis option.inject)
qed

text \<open>
  C4 (as amended). \<^verbatim>\<open>Compound.Unparse\<close> has neither a depth limit nor a visited set. For every
  term that is finite under the environment (it resolves, and so do the arguments of every
  compound reached from it, none of which is reached from itself), unparsing returns.
\<close>

theorem Unparse_returns_on_finite_terms:
  assumes "finite_under env t"
  shows "Unparse_returns leaf t opts env"
  using finite_under_Unparse[OF assms, of leaf] unfolding Unparse_returns_def by blast

theorem Unparse_returns_on_finite_terms_witness:
  "finite_under [(1, Atom ''b'')] (Compound ''.'' [Atom ''a'', Variable 1])
   \<and> Unparse_returns test_leaf (Compound ''.'' [Atom ''a'', Variable 1])
         \<lparr>Quoted = False, Ops = [], Priority = 1200, NumberVars = False\<rparr> [(1, Atom ''b'')]"
proof -
  have a: "finite_under [(1, Atom ''b'')] (Atom ''a'')"
    by (rule finite_leaf[where r = "Atom ''a''"]) simp_all
  have b: "finite_under [(1, Atom ''b'')] (Variable 1)"
    by (rule finite_leaf[where r = "Atom ''b''"]) (simp_all add: Resolve_Variable Lookup_def)
  have l: "list_all (finite_under [(1, Atom ''b'')]) [Atom ''a'', Variable 1]"
    using a b by simp
  have f: "finite_under [(1, Atom ''b'')] (Compound ''.'' [Atom ''a'', Variable 1])"
    by (rule finite_compound[OF _ l]) simp
  from Unparse_returns_on_finite_terms[OF f] f show ?thesis by blast
qed

lemma Unparse_Atom_cases:
  "Unparse n leaf (Atom a) opts env = None \<or>
   Unparse n leaf (Atom a) opts env = Some (Value (leaf (Atom a) opts env))"
  by (cases n) (simp_all add: UnparseResolved_def)

lemma and_then_None [simp]: "and_then None m = None"
  by (simp add: and_then_def)

lemma and_then_emit_None [simp]: "and_then (emit k v) None = None"
  by (simp add: and_then_def emit_def)

lemma Unparse_cyclic_list:
  assumes env: "Lookup env v = Some (Compound ''.'' [Atom a, Variable v])"
  shows "UnparseTail n leaf (Compound ''.'' [Atom a, Variable v]) opts env = None
       \<and> Unparse n leaf (Variable v) opts env = None"
proof (induction n)
  case 0
  show ?case by simp
next
  case (Suc n)
  have R: "Resolve env (Variable v) = Some (Compound ''.'' [Atom a, Variable v])"
    using env by (simp add: Resolve_Variable)
  have T: "UnparseTail n leaf (Compound ''.'' [Atom a, Variable v]) opts env = None"
    using Suc by simp
  have x: "and_then (Unparse n leaf (Atom a) opts env) None = None"
    using Unparse_Atom_cases[of n leaf a opts env] by (auto simp: and_then_def)
  have y: "and_then (Unparse n leaf (Atom a) opts env) (and_then None m) = None" for m
    using Unparse_Atom_cases[of n leaf a opts env] by (auto simp: and_then_def)
  have "UnparseTail (Suc n) leaf (Compound ''.'' [Atom a, Variable v]) opts env = None"
    by (simp add: UnparseTail_step_def R T x)
  moreover have "Unparse (Suc n) leaf (Variable v) opts env = None"
    by (simp add: R UnparseResolved_def UnparseCompound_def T x y)
  ultimately show ?case by blast
qed

text \<open>
  C4 as stated fails: unifying \<open>X\<close> with \<open>[a|X]\<close> without the occurs check binds \<open>X\<close>
  to a list whose tail is \<open>X\<close> again, and unparsing \<open>X\<close> does not return within any
  bound.
\<close>

theorem Unparse_cyclic_list_counterexample:
  "Unify (Suc 0) (Variable 0) (Compound ''.'' [Atom ''a'', Variable 0]) False []
     = Some ([(0, Compound ''.'' [Atom ''a'', Variable 0])], True)
   \<and> \<not> Unparse_returns test_leaf (Variable 0)
         \<lparr>Quoted = False, Ops = [], Priority = 1200, NumberVars = False\<rparr>
         [(0, Compound ''.'' [Atom ''a'', Variable 0])]"
proof -
  have u: "Unify (Suc 0) (Variable 0) (Compound ''.'' [Atom ''a'', Variable 0]) False []
     = Some ([(0, Compound ''.'' [Atom ''a'', Variable 0])], True)"
    by (simp add: Resolve_Variable Lookup_def Bind_def)
  have l: "Lookup [(0, Compound ''.'' [Atom ''a'', Variable 0])] 0
      = Some (Compound ''.'' [Atom ''a'', Variable 0])"
    by (simp add: Lookup_def)
  have n: "\<not> Unparse_returns test_leaf (Variable 0)
         \<lparr>Quoted = False, Ops = [], Priority = 1200, NumberVars = False\<rparr>
         [(0, Compound ''.'' [Atom ''a'', Variable 0])]"
    unfolding Unparse_returns_def using Unparse_cyclic_list[OF l] by simp
  show ?thesis by (intro conjI u n)
qed

subsection \<open>\<^verbatim>\<open>=..\<close> on a compound\<close>









lemma List_simps:
  "List [] = Atom ''[]''"
  "List (a # as) = Compound ''.'' [a, List as]"
  by (simp_all add: List_def ListRest_def Cons_def)
















lemma List_eq_nil: "List as = Atom ''[]'' \<longleftrightarrow> as = []"
  by (cases as) (simp_all add: List_simps)













subsection \<open>Asserted clauses and the order of their alternatives\<close>

lemma Force_mono:
  "Force n p s = Some res \<Longrightarrow> n \<le> m \<Longrightarrow> Force m p s = Some res"
proof (induction n arbitrary: p s res m)
  case 0
  then show ?case by simp
next
  case (Suc n)
  from Suc.prems(2) obtain m' where m: "m = Suc m'" and le: "n \<le> m'" by (cases m) auto
  note IH = Suc.IH[OF _ le]
  show ?case
  proof (cases p)
    case (Delay ks)
    show ?thesis
    proof (cases ks)
      case Nil
      with Suc.prems(1) Delay show ?thesis unfolding m by simp
    next
      case (Cons k ks')
      obtain q s1 where k: "k s = (q, s1)" by (cases "k s")
      from Suc.prems(1) obtain r c s2 where q: "Force n q s1 = Some (r, c, s2)"
        unfolding Delay Cons by (cases "Force n q s1") (auto simp: k)
      note q' = IH[OF q]
      show ?thesis
      proof (cases "r = Inr False \<and> \<not> c")
        case True
        with Suc.prems(1) q have "Force n (Promise.Delay ks') s2 = Some res"
          unfolding Delay Cons by (simp add: k)
        from IH[OF this] show ?thesis unfolding m Delay Cons using True q' by (simp add: k)
      next
        case False
        with Suc.prems(1) q have "res = (r, c, s2)"
          unfolding Delay Cons by (auto simp: k)
        then show ?thesis unfolding m Delay Cons using False q' by (auto simp: k)
      qed
    qed
  next
    case (Opaque q)
    from Suc.prems(1) obtain r where q: "Force n q s = Some r"
      unfolding Opaque by (cases "Force n q s") auto
    from IH[OF q] q Suc.prems(1) show ?thesis unfolding m Opaque by simp
  next
    case (Cut q)
    from Suc.prems(1) obtain r where q: "Force n q s = Some r"
      unfolding Cut by (cases "Force n q s") auto
    from IH[OF q] q Suc.prems(1) show ?thesis unfolding m Cut by simp
  qed (use Suc.prems(1) m in auto)
qed

lemma Force_returns_empty:
  "Force_returns (Delay []) s res \<longleftrightarrow> res = (Inr False, False, s)"
proof
  assume "Force_returns (Delay []) s res"
  then obtain n where "Force n (Delay []) s = Some res" by (auto simp: Force_returns_def)
  then show "res = (Inr False, False, s)" by (cases n) auto
next
  assume "res = (Inr False, False, s)"
  then have "Force (Suc 0) (Delay []) s = Some res" by simp
  then show "Force_returns (Delay []) s res" unfolding Force_returns_def by (rule exI)
qed


lemma Force_Delay_single:
  assumes "f s = (p, s1)"
  shows "Force_returns (Delay [f]) s res \<longleftrightarrow> Force_returns p s1 res"
proof
  assume "Force_returns (Delay [f]) s res"
  then obtain n where n: "Force n (Delay [f]) s = Some res" by (auto simp: Force_returns_def)
  then obtain n' where n': "n = Suc n'" by (cases n) auto
  from n obtain r c s2 where p: "Force n' p s1 = Some (r, c, s2)"
    unfolding n' by (cases "Force n' p s1") (auto simp: assms)
  then obtain k where k: "n' = Suc k" by (cases n') auto
  from n p have "res = (r, c, s2)"
    unfolding n' by (auto simp: assms k split: if_splits)
  with p show "Force_returns p s1 res" by (auto simp: Force_returns_def)
next
  assume "Force_returns p s1 res"
  then obtain n where n: "Force n p s1 = Some res" by (auto simp: Force_returns_def)
  then obtain k where k: "n = Suc k" by (cases n) auto
  obtain r c s2 where res: "res = (r, c, s2)" by (cases res)
  from n have "Force (Suc n) (Delay [f]) s = Some res"
    by (auto simp: assms res k)
  then show "Force_returns (Delay [f]) s res" unfolding Force_returns_def by (rule exI)
qed

lemma Force_Delay_Cons:
  assumes "f s = (p, s1)"
  shows "Force_returns (Delay (f # fs)) s res \<longleftrightarrow>
           (\<exists>r c s2. Force_returns p s1 (r, c, s2)
              \<and> (if r = Inr False \<and> \<not> c then Force_returns (Delay fs) s2 res
                  else res = (r, c, s2)))"
proof
  assume "Force_returns (Delay (f # fs)) s res"
  then obtain n where n: "Force n (Delay (f # fs)) s = Some res"
    by (auto simp: Force_returns_def)
  then obtain n' where n': "n = Suc n'" by (cases n) auto
  from n obtain r c s2 where p: "Force n' p s1 = Some (r, c, s2)"
    unfolding n' by (cases "Force n' p s1") (auto simp: assms)
  have "if r = Inr False \<and> \<not> c then Force_returns (Delay fs) s2 res else res = (r, c, s2)"
    using n p unfolding n' Force_returns_def by (auto simp: assms split: if_splits)
  with p show "\<exists>r c s2. Force_returns p s1 (r, c, s2)
              \<and> (if r = Inr False \<and> \<not> c then Force_returns (Delay fs) s2 res
                  else res = (r, c, s2))"
    unfolding Force_returns_def by blast
next
  assume "\<exists>r c s2. Force_returns p s1 (r, c, s2)
              \<and> (if r = Inr False \<and> \<not> c then Force_returns (Delay fs) s2 res
                  else res = (r, c, s2))"
  then obtain r c s2 n where p: "Force n p s1 = Some (r, c, s2)"
    and rest: "if r = Inr False \<and> \<not> c then Force_returns (Delay fs) s2 res
               else res = (r, c, s2)"
    unfolding Force_returns_def by blast
  show "Force_returns (Delay (f # fs)) s res"
  proof (cases "r = Inr False \<and> \<not> c")
    case True
    with rest obtain m where m: "Force m (Delay fs) s2 = Some res"
      by (auto simp: Force_returns_def)
    have 1: "Force (max n m) p s1 = Some (r, c, s2)" using p by (rule Force_mono) simp
    have 2: "Force (max n m) (Delay fs) s2 = Some res" using m by (rule Force_mono) simp
    have "Force (Suc (max n m)) (Delay (f # fs)) s = Some res"
      using 1 2 True by (simp add: assms)
    then show ?thesis unfolding Force_returns_def by (rule exI)
  next
    case False
    with rest have "res = (r, c, s2)" by simp
    with p False have "Force (Suc n) (Delay (f # fs)) s = Some res"
      by (auto simp: assms)
    then show ?thesis unfolding Force_returns_def by (rule exI)
  qed
qed

lemma Force_Opaque:
  "Force_returns (Opaque p) s (r, c, s') \<longleftrightarrow> \<not> c \<and> (\<exists>c'. Force_returns p s (r, c', s'))"
proof
  assume "Force_returns (Opaque p) s (r, c, s')"
  then obtain n where n: "Force n (Opaque p) s = Some (r, c, s')"
    by (auto simp: Force_returns_def)
  then obtain n' where n': "n = Suc n'" by (cases n) auto
  from n show "\<not> c \<and> (\<exists>c'. Force_returns p s (r, c', s'))"
    unfolding n' Force_returns_def by (auto split: option.splits)
next
  assume "\<not> c \<and> (\<exists>c'. Force_returns p s (r, c', s'))"
  then obtain n c' where "\<not> c" "Force n p s = Some (r, c', s')"
    by (auto simp: Force_returns_def)
  then have "Force (Suc n) (Opaque p) s = Some (r, c, s')" by simp
  then show "Force_returns (Opaque p) s (r, c, s')" unfolding Force_returns_def by (rule exI)
qed


lemma zip_upt_Cons:
  "zip [i..<i + length (x # xs)] (x # xs) = (i, x) # zip [Suc i..<Suc i + length xs] xs"
proof -
  have "[i..<i + length (x # xs)] = i # [Suc i..<Suc i + length xs]"
    using upt_conv_Cons[of i "i + length (x # xs)"] by simp
  then show ?thesis by simp
qed

lemma Delay_in_vector_order:
  "(\<exists>c. Force_returns (Delay (map (\<lambda>(j, x). f j x) (zip [i..<i + length xs] xs))) s (r, c, s'))
   \<longleftrightarrow> in_vector_order (\<lambda>j x s res. Force_returns (Delay [f j x]) s res) i xs s (r, s')"
proof (induction xs arbitrary: i s)
  case Nil
  show ?case
    by (auto simp: Force_returns_empty intro: no_clause_left elim: in_vector_order.cases)
next
  case (Cons x xs)
  let ?att = "\<lambda>j x s res. Force_returns (Delay [f j x]) s res"
  let ?rest = "map (\<lambda>(j, x). f j x) (zip [Suc i..<Suc i + length xs] xs)"
  obtain p s1 where fx: "f i x s = (p, s1)" by (cases "f i x s")
  note single = Force_Delay_single[where f = "f i x" and s = s, OF fx]
  note cons = Force_Delay_Cons[where f = "f i x" and s = s and fs = ?rest, OF fx]
  have unfold: "map (\<lambda>(j, x). f j x) (zip [i..<i + length (x # xs)] (x # xs)) = f i x # ?rest"
    unfolding zip_upt_Cons by simp
  show ?case unfolding unfold
  proof
    assume "\<exists>c. Force_returns (Delay (f i x # ?rest)) s (r, c, s')"
    then obtain c where "Force_returns (Delay (f i x # ?rest)) s (r, c, s')" ..
    then obtain r1 c1 s2 where p: "Force_returns p s1 (r1, c1, s2)"
      and rest: "if r1 = Inr False \<and> \<not> c1 then Force_returns (Delay ?rest) s2 (r, c, s')
                 else (r, c, s') = (r1, c1, s2)"
      unfolding cons by blast
    have att: "?att i x s (r1, c1, s2)" using p unfolding single .
    show "in_vector_order ?att i (x # xs) s (r, s')"
    proof (cases "r1 = Inr False \<and> \<not> c1")
      case True
      with rest have "\<exists>c. Force_returns (Delay ?rest) s2 (r, c, s')" by auto
      then have "in_vector_order ?att (Suc i) xs s2 (r, s')" unfolding Cons.IH .
      moreover have "?att i x s (Inr False, False, s2)" using att True by simp
      ultimately show ?thesis by (rule redo[rotated])
    next
      case False
      with rest have eq: "r = r1" "c = c1" "s' = s2" by auto
      have "?att i x s (r, c, s')" using att eq by simp
      moreover have "r \<noteq> Inr False \<or> c" using False eq by simp
      ultimately show ?thesis by (rule decided)
    qed
  next
    assume "in_vector_order ?att i (x # xs) s (r, s')"
    then show "\<exists>c. Force_returns (Delay (f i x # ?rest)) s (r, c, s')"
    proof (cases rule: in_vector_order.cases)
      case (decided c)
      then have "Force_returns p s1 (r, c, s')" unfolding single by simp
      with decided(2) have "Force_returns (Delay (f i x # ?rest)) s (r, c, s')"
        unfolding cons by (intro exI[of _ r] exI[of _ c] exI[of _ s']) auto
      then show ?thesis ..
    next
      case (redo s2)
      then have p: "Force_returns p s1 (Inr False, False, s2)" unfolding single by simp
      from redo(2) obtain c where "Force_returns (Delay ?rest) s2 (r, c, s')"
        unfolding Cons.IH[symmetric] ..
      with p have "Force_returns (Delay (f i x # ?rest)) s (r, c, s')"
        unfolding cons by (intro exI[of _ "Inr False"] exI[of _ False] exI[of _ s2]) auto
      then show ?thesis ..
    qed
  qed
qed


lemma map_nth_zip:
  "map (\<lambda>i. g i (xs ! i)) [0..<length xs] = map (\<lambda>(j, x). g j x) (zip [0..<0 + length xs] xs)"
  by (rule nth_equalityI) simp_all

lemma clauses_Call_in_vector_order:
  assumes "cs \<noteq> []" and "FreeVariables n (refs (store vm)) [args] = Some fvs"
  shows "\<exists>P. clauses_Call exec n cs vm args k = Some P
           \<and> (\<forall>r cu s'. Force_returns P vm (r, cu, s') \<longleftrightarrow>
                 \<not> cu \<and> in_vector_order (attempt exec fvs args k) 0 cs vm (r, s'))"
proof -
  let ?alt = "alternative exec fvs args k"
  let ?P = "Opaque (Delay (map (\<lambda>i. ?alt i (cs ! i)) [0..<length cs]))"
  have P: "clauses_Call exec n cs vm args k = Some ?P"
    using assms by (simp add: clauses_Call_def)
  have att: "attempt exec fvs args k = (\<lambda>j x s res. Force_returns (Delay [?alt j x]) s res)"
    by (intro ext) (simp add: attempt_def)
  have "Force_returns ?P vm (r, cu, s') \<longleftrightarrow>
          \<not> cu \<and> in_vector_order (attempt exec fvs args k) 0 cs vm (r, s')" for r cu s'
    unfolding Force_Opaque map_nth_zip att
    using Delay_in_vector_order[of ?alt 0 cs vm r s'] by simp
  with P show ?thesis by blast
qed

lemma Assertz_store:
  assumes "nameArgs (refs (heap_of e)) t = Some (Inr (name, as))" and "name \<noteq> '':-/1''"
    and "clause_key m name as e = Some (Inr key', e1)"
    and "clauses_of (procedures' e1 key') = Some old"
    and "compile' key' t (heap_of e1) = Inr c"
  shows "Assertz m compile' arrive' t e =
           Some (Continue, e1\<lparr>procedures' := (procedures' e1)(key' \<mapsto> Clauses (old @ [c]))\<rparr>)"
  using assms by (simp add: Assertz_def store_clause_def)


text \<open>
  C6. Let \<open>t\<close> be a term that is not a directive, let \<open>key\<close> be the key of the procedure it
  belongs to, let that procedure be absent or a clause vector \<open>old\<close>, and let \<open>t\<close> compile to
  the clause \<open>c\<close>. Then \<open>Assertz\<close> goes on with the vector \<open>old @ [c]\<close> stored under the key:
  the new clause is at the end. The call of that vector returns a promise, and the driver
  gives a result on it exactly when attempting the clauses in the order of the vector gives
  that result: the first clause first, a later clause only after the attempt of the clause
  before it has failed.
\<close>

theorem Assertz_appends_and_Call_in_vector_order:
  fixes e :: "clause Engine"
  assumes "nameArgs (refs (heap_of e)) t = Some (Inr (name, as))" and "name \<noteq> '':-/1''"
    and "clause_key m name as e = Some (Inr key', e1)"
    and "clauses_of (procedures' e1 key') = Some old"
    and "compile' key' t (heap_of e1) = Inr c"
    and "FreeVariables n (refs (store vm)) [args] = Some fvs"
  shows "Assertz m compile' arrive' t e =
           Some (Continue, e1\<lparr>procedures' := (procedures' e1)(key' \<mapsto> Clauses (old @ [c]))\<rparr>)
         \<and> (\<exists>P. clauses_Call exec n (old @ [c]) vm args k = Some P
               \<and> (\<forall>r cu s'. Force_returns P vm (r, cu, s') \<longleftrightarrow>
                     \<not> cu \<and> in_vector_order (attempt exec fvs args k) 0 (old @ [c]) vm (r, s')))"
proof (rule conjI)
  show "Assertz m compile' arrive' t e =
          Some (Continue, e1\<lparr>procedures' := (procedures' e1)(key' \<mapsto> Clauses (old @ [c]))\<rparr>)"
    using assms(1-5) by (rule Assertz_store)
next
  have "old @ [c] \<noteq> []" by simp
  then show "\<exists>P. clauses_Call exec n (old @ [c]) vm args k = Some P
               \<and> (\<forall>r cu s'. Force_returns P vm (r, cu, s') \<longleftrightarrow>
                     \<not> cu \<and> in_vector_order (attempt exec fvs args k) 0 (old @ [c]) vm (r, s'))"
    using assms(6) by (rule clauses_Call_in_vector_order)
qed


theorem Assertz_appends_and_Call_in_vector_order_witness:
  "nameArgs (refs (heap_of example_engine))
       (Compound '':-'' [Compound ''foo'' [Variable 0], Atom ''true''])
     = Some (Inr ('':-/2'', List [Compound ''foo'' [Variable 0], Atom ''true'']))
   \<and> clause_key 3 '':-/2'' (List [Compound ''foo'' [Variable 0], Atom ''true'']) example_engine
     = Some (Inr ''foo/1'',
         example_engine\<lparr>heap_of := \<lparr>refs = [(2, List [Atom ''true'']),
                                             (1, Compound ''foo'' [Variable 0])],
                                     next_var = 3\<rparr>\<rparr>)
   \<and> clauses_of (procedures' example_engine ''foo/1'')
     = Some [example_clause (Atom ''a'') [opVoid]]
   \<and> FreeVariables 2 (refs (store example_vm)) [List [Atom ''a'']] = Some []
   \<and> Assertz 3 example_compile example_arrive
       (Compound '':-'' [Compound ''foo'' [Variable 0], Atom ''true'']) example_engine
     = Some (Continue,
         \<lparr>procedures' = [''foo/1'' \<mapsto> Clauses
            [example_clause (Atom ''a'') [opVoid],
             example_clause (Compound '':-'' [Compound ''foo'' [Variable 0], Atom ''true''])
               [opExit]]],
          heap_of = \<lparr>refs = [(2, List [Atom ''true'']), (1, Compound ''foo'' [Variable 0])],
                     next_var = 3\<rparr>\<rparr>)
   \<and> in_vector_order (attempt example_exec [] (List [Atom ''a'']) (Bool True)) 0
       [example_clause (Atom ''a'') [opVoid],
        example_clause (Compound '':-'' [Compound ''foo'' [Variable 0], Atom ''true'']) [opExit]]
       example_vm
       (Inr True,
        example_vm\<lparr>events :=
          [OnCall \<lparr>pi_name = ''foo'', pi_arity = 1\<rparr> (List [Atom ''a'']),
           OnFail \<lparr>pi_name = ''foo'', pi_arity = 1\<rparr> (List [Atom ''a'']),
           OnRedo \<lparr>pi_name = ''foo'', pi_arity = 1\<rparr> (List [Atom ''a'']),
           OnExit \<lparr>pi_name = ''foo'', pi_arity = 1\<rparr> (List [Atom ''a''])]\<rparr>)"
proof -
  define t where "t = Compound '':-'' [Compound ''foo'' [Variable 0], Atom ''true'']"
  define as where "as = List [Compound ''foo'' [Variable 0], Atom ''true'']"
  define e1 where "e1 = example_engine\<lparr>heap_of :=
     \<lparr>refs = [(2, List [Atom ''true'']), (1, Compound ''foo'' [Variable 0])], next_var = 3\<rparr>\<rparr>"
  define old where "old = [example_clause (Atom ''a'') [opVoid]]"
  define c where "c = example_clause t [opExit]"
  define args where "args = List [Atom ''a'']"
  define fin where "fin = example_vm\<lparr>events :=
          [OnCall \<lparr>pi_name = ''foo'', pi_arity = 1\<rparr> args,
           OnFail \<lparr>pi_name = ''foo'', pi_arity = 1\<rparr> args,
           OnRedo \<lparr>pi_name = ''foo'', pi_arity = 1\<rparr> args,
           OnExit \<lparr>pi_name = ''foo'', pi_arity = 1\<rparr> args]\<rparr>"
  have two: "string_of_nat (Suc (Suc 0)) = ''2''" "string_of_nat (Suc 0) = ''1''"
    by (subst string_of_nat.simps, simp add: digit_def)+
  have h1: "nameArgs (refs (heap_of example_engine)) t = Some (Inr ('':-/2'', as))"
    by (simp add: nameArgs_def t_def as_def two)
  have h2: "'':-/2'' \<noteq> '':-/1''" by simp
  have h3: "clause_key 3 '':-/2'' as example_engine = Some (Inr ''foo/1'', e1)"
    by (simp add: clause_key_def first_nameArgs_def as_def e1_def example_engine_def Let_def
        numeral_eq_Suc Cons_def List_def ListRest_def Resolve_Variable Lookup_def Bind_def
        nameArgs_def two)
  have h4: "clauses_of (procedures' e1 ''foo/1'') = Some old"
    by (simp add: clauses_of_def e1_def example_engine_def old_def)
  have h5: "example_compile ''foo/1'' t (heap_of e1) = Inr c"
    by (simp add: example_compile_def c_def)
  have h6: "FreeVariables 2 (refs (store example_vm)) [args] = Some []"
    by (simp add: FreeVariables_def numeral_eq_Suc args_def List_def ListRest_def Cons_def
        example_vm_def)
  from Assertz_appends_and_Call_in_vector_order[where compile' = example_compile
        and arrive' = example_arrive and exec = example_exec and k = "Bool True",
      OF h1 h2 h3 h4 h5 h6]
  obtain P where A: "Assertz 3 example_compile example_arrive t example_engine =
           Some (Continue, e1\<lparr>procedures' := (procedures' e1)(''foo/1'' \<mapsto> Clauses (old @ [c]))\<rparr>)"
    and P: "clauses_Call example_exec 2 (old @ [c]) example_vm args (Bool True) = Some P"
    and iff: "\<And>r cu s'. Force_returns P example_vm (r, cu, s') \<longleftrightarrow>
               \<not> cu \<and> in_vector_order (attempt example_exec [] args (Bool True)) 0 (old @ [c])
                        example_vm (r, s')"
    by blast
  have Pdef: "P = Opaque (Delay [alternative example_exec [] args (Bool True) 0
                                    (example_clause (Atom ''a'') [opVoid]),
                                  alternative example_exec [] args (Bool True) 1 c])"
    using P by (simp add: clauses_Call_def h6 old_def upt_rec)
  have ne: "[opExit] \<noteq> [opVoid]" by (simp add: opVoid_def opExit_def)
  have six: "(6::nat) = Suc (Suc (Suc (Suc (Suc (Suc 0)))))" by simp
  have "Force 6 P example_vm = Some (Inr True, False, fin)"
    unfolding Pdef six
    by (simp add: c_def example_clause_def alternative_def Let_def
        notify_def fresh_vars_def ResetVariables_def example_exec_def example_vm_def fin_def
        ne[simplified])
  then have "Force_returns P example_vm (Inr True, False, fin)"
    unfolding Force_returns_def by (rule exI)
  then have O: "in_vector_order (attempt example_exec [] args (Bool True)) 0 (old @ [c])
                  example_vm (Inr True, fin)"
    unfolding iff by simp
  have E: "e1\<lparr>procedures' := (procedures' e1)(''foo/1'' \<mapsto> Clauses (old @ [c]))\<rparr> =
        \<lparr>procedures' = [''foo/1'' \<mapsto> Clauses (old @ [c])],
          heap_of = \<lparr>refs = [(2, List [Atom ''true'']), (1, Compound ''foo'' [Variable 0])],
                     next_var = 3\<rparr>\<rparr>"
    by (simp add: e1_def example_engine_def)
  from h1 h3 h4 h6 A O show ?thesis
    unfolding E unfolding t_def as_def e1_def old_def c_def args_def fin_def by simp
qed

end
